theory Spec2Isabelle
  imports Main "HOL-Library.Word" "HOL-Library.Code_Target_Nat"
begin

unbundle bit_operations_syntax

section \<open>Memory model: character buffers and fatal exits\<close>

text \<open>
  A C \<open>char\<close> array is a list of characters whose length is the size of the array. A pointer
  into the middle of an array (\<open>&result[k]\<close>) is the suffix \<open>drop k result\<close>. An access
  outside the array is undefined behaviour in C; the model makes it the error
  \<open>Out_Of_Bounds\<close>. The two places where the source prints with \<open>perror\<close> and calls
  \<open>CUID_EXIT(EXIT_FAILURE)\<close> are the errors \<open>Bad_Pad_Length\<close> (in \<open>cuid_base36_pad\<close>) and
  \<open>Hostname_Failure\<close> (in \<open>cuid_get_fingerprint\<close>).
\<close>

datatype error = Bad_Pad_Length | Hostname_Failure | Out_Of_Bounds

definition NUL :: char where
  "NUL = CHR 0x00"

definition buf_read :: "char list \<Rightarrow> nat \<Rightarrow> error + char" where
  "buf_read buf i = (if i < length buf then Inr (buf ! i) else Inl Out_Of_Bounds)"

definition buf_write :: "char list \<Rightarrow> nat \<Rightarrow> char \<Rightarrow> error + char list" where
  "buf_write buf i c = (if i < length buf then Inr (buf[i := c]) else Inl Out_Of_Bounds)"

text \<open>\<open>for (size_t i = lo; i < hi; ++i) body\<close>, stopping at the first error.\<close>

function for_loop :: "nat \<Rightarrow> nat \<Rightarrow> (nat \<Rightarrow> 's \<Rightarrow> error + 's) \<Rightarrow> 's \<Rightarrow> error + 's" where
  "for_loop i hi body s =
     (if i < hi then (case body i s of Inl e \<Rightarrow> Inl e | Inr s' \<Rightarrow> for_loop (Suc i) hi body s')
      else Inr s)"
  by pat_completeness auto
termination
  by (relation "measure (\<lambda>(i, hi, body, s). hi - i)") auto

declare for_loop.simps [simp del]

section \<open>Base-36 codec\<close>

definition CUID_BASE36_RESULT_SIZE :: nat where
  "CUID_BASE36_RESULT_SIZE = 16"

definition cuid_radix36_table :: string where
  "cuid_radix36_table = ''0123456789abcdefghijklmnopqrstuvwxyz''"

text \<open>
  The \<open>do ... while (cuid_number > 0 && cuid_length < CUID_BASE36_RESULT_SIZE - 1)\<close> loop of
  \<open>cuid_base36\<close>: one digit is stored in the local array \<open>cuid_inverted_result\<close> before the
  condition is tested.
\<close>

function cuid_base36_digits :: "64 word \<Rightarrow> char list \<Rightarrow> nat \<Rightarrow> char list \<times> nat" where
  "cuid_base36_digits n inverted len =
     (if 0 < n div 36 \<and> Suc len < CUID_BASE36_RESULT_SIZE - 1
      then cuid_base36_digits (n div 36) (inverted[len := cuid_radix36_table ! unat (n mod 36)]) (Suc len)
      else (inverted[len := cuid_radix36_table ! unat (n mod 36)], Suc len))"
  by pat_completeness auto
termination
  by (relation "measure (\<lambda>(n, inverted, len). CUID_BASE36_RESULT_SIZE - 1 - len)") auto

declare cuid_base36_digits.simps [simp del]

definition cuid_base36 :: "64 word \<Rightarrow> char list \<Rightarrow> error + (char list \<times> nat)" where
  "cuid_base36 cuid_number cuid_result =
     (case cuid_base36_digits cuid_number (replicate CUID_BASE36_RESULT_SIZE NUL) 0 of
        (inverted, cuid_length) \<Rightarrow>
          (case for_loop 0 (Suc (cuid_length - 1))
                  (\<lambda>i buf. buf_write buf i (inverted ! (cuid_length - 1 - i))) cuid_result of
             Inl e \<Rightarrow> Inl e
           | Inr buf \<Rightarrow>
               (case buf_write buf cuid_length NUL of
                  Inl e \<Rightarrow> Inl e
                | Inr buf' \<Rightarrow> Inr (buf', cuid_length))))"

definition cuid_base36_pad ::
  "64 word \<Rightarrow> char list \<Rightarrow> 8 word \<Rightarrow> char \<Rightarrow> error + (char list \<times> nat)" where
  "cuid_base36_pad cuid_number cuid_result pad_length pad_char =
     (if unat pad_length \<ge> CUID_BASE36_RESULT_SIZE then Inl Bad_Pad_Length
      else
        (case cuid_base36 cuid_number cuid_result of
           Inl e \<Rightarrow> Inl e
         | Inr (buf, base36_str_len) \<Rightarrow>
             if base36_str_len < unat pad_length then
               (case for_loop 0 (Suc (unat pad_length))
                       (\<lambda>i b. if i > base36_str_len
                               then buf_write b (unat pad_length - i) pad_char
                               else (case buf_read b (base36_str_len - i) of
                                       Inl e \<Rightarrow> Inl e
                                     | Inr c \<Rightarrow> buf_write b (unat pad_length - i) c)) buf of
                  Inl e \<Rightarrow> Inl e
                | Inr b \<Rightarrow> Inr (b, unat pad_length))
             else if base36_str_len > unat pad_length then
               (case for_loop 0 (Suc (unat pad_length))
                       (\<lambda>i b. case buf_read b (i + (base36_str_len - unat pad_length)) of
                                 Inl e \<Rightarrow> Inl e
                               | Inr c \<Rightarrow> buf_write b i c) buf of
                  Inl e \<Rightarrow> Inl e
                | Inr b \<Rightarrow> Inr (b, unat pad_length))
             else Inr (buf, unat pad_length)))"

text \<open>
  The encoding as the specification words it: divide by 36 until the quotient is 0, most
  significant digit first; then pad on the left or keep the last \<open>width\<close> digits.
\<close>

function encode :: "nat \<Rightarrow> string" where
  "encode n = (if n < 36 then [cuid_radix36_table ! n]
               else encode (n div 36) @ [cuid_radix36_table ! (n mod 36)])"
  by pat_completeness auto
termination
  by (relation "measure (\<lambda>n. n)") auto

declare encode.simps [simp del]

definition encode_padded :: "nat \<Rightarrow> nat \<Rightarrow> char \<Rightarrow> string" where
  "encode_padded n width pad_char =
     (if length (encode n) < width then replicate (width - length (encode n)) pad_char @ encode n
      else drop (length (encode n) - width) (encode n))"

section \<open>Multiply-with-carry generator\<close>

text \<open>
  \<open>MWC_SYSTEM_RAND32\<close> is an external collaborator. It is modelled as the sequence of the
  values it returns: \<open>rand32 k\<close> is the value returned by call number \<open>k\<close>, and every function
  that draws from it takes the number of calls made so far and returns the new count.
\<close>

definition MWC_CYCLE :: nat where
  "MWC_CYCLE = 4096"

definition MWC_C_MAX :: "32 word" where
  "MWC_C_MAX = 809430660"

record mwc_random_t =
  mwc_q :: "32 word list"
  mwc_carry :: "32 word"
  mwc_current_cycle :: "32 word"
  mwc_initial_carry :: "32 word"
  mwc_initial_q :: "32 word list"

text \<open>
  The rejection loop of \<open>mwc_initial_c\<close> runs until a draw is below \<open>MWC_C_MAX\<close>; it does not
  return (\<open>None\<close>) when no later draw is.
\<close>

partial_function (option) mwc_initial_c :: "(nat \<Rightarrow> 32 word) \<Rightarrow> nat \<Rightarrow> (32 word \<times> nat) option" where
  "mwc_initial_c rand32 k =
     (if rand32 k \<ge> MWC_C_MAX then mwc_initial_c rand32 (Suc k) else Some (rand32 k, Suc k))"

declare mwc_initial_c.simps [code]

definition mwc_create :: "(nat \<Rightarrow> 32 word) \<Rightarrow> nat \<Rightarrow> (mwc_random_t \<times> nat) option" where
  "mwc_create rand32 k =
     (case mwc_initial_c rand32 k of
        None \<Rightarrow> None
      | Some (mwc_c, k') \<Rightarrow>
          Some (fold (\<lambda>i (st, j).
                        (st\<lparr>mwc_q := (mwc_q st)[i := rand32 j],
                            mwc_initial_q := (mwc_initial_q st)[i := rand32 j]\<rparr>, Suc j))
                     [0..<MWC_CYCLE]
                     (\<lparr>mwc_q = replicate MWC_CYCLE 0, mwc_carry = mwc_c,
                       mwc_current_cycle = of_nat (MWC_CYCLE - 1), mwc_initial_carry = mwc_c,
                       mwc_initial_q = replicate MWC_CYCLE 0\<rparr>, k')))"

definition mwc_init :: "mwc_random_t \<Rightarrow> mwc_random_t" where
  "mwc_init r =
     fold (\<lambda>i st. st\<lparr>mwc_q := (mwc_q st)[i := mwc_initial_q st ! i]\<rparr>)
          [0..<MWC_CYCLE]
          (r\<lparr>mwc_carry := mwc_initial_carry r, mwc_current_cycle := of_nat (MWC_CYCLE - 1)\<rparr>)"

definition mwc_read_random :: "mwc_random_t \<Rightarrow> 32 word" where
  "mwc_read_random state = mwc_q state ! unat (mwc_current_cycle state)"

definition mwc_next_random :: "mwc_random_t \<Rightarrow> mwc_random_t" where
  "mwc_next_random state =
     (let a = (18782 :: 64 word);
          m = (0xfffffffe :: 32 word);
          cycle = (mwc_current_cycle state + 1) AND of_nat (MWC_CYCLE - 1);
          t = a * ucast (mwc_q state ! unat cycle) + ucast (mwc_carry state);
          carry = (ucast (drop_bit 32 t) :: 32 word);
          x = (ucast t :: 32 word) + carry;
          x' = (if x < carry then x + 1 else x);
          carry' = (if x < carry then carry + 1 else carry)
      in state\<lparr>mwc_current_cycle := cycle, mwc_carry := carry',
               mwc_q := (mwc_q state)[unat cycle := m - x']\<rparr>)"

text \<open>A sequence of calls of \<open>mwc_next_random\<close> and \<open>mwc_init\<close> on a generator state.\<close>

datatype mwc_op = Advance | Reset

fun mwc_run :: "mwc_random_t \<Rightarrow> mwc_op list \<Rightarrow> mwc_random_t" where
  "mwc_run s [] = s"
| "mwc_run s (Advance # ops) = mwc_run (mwc_next_random s) ops"
| "mwc_run s (Reset # ops) = mwc_run (mwc_init s) ops"

text \<open>
  One advance step as the specification words it, on natural numbers with the 32-bit
  wrap-around written out: the new cursor, the new carry and the stored table entry.
\<close>

definition advance_cursor :: "nat \<Rightarrow> nat" where
  "advance_cursor cursor = (cursor + 1) mod 4096"

definition advance_t :: "nat \<Rightarrow> nat \<Rightarrow> nat" where
  "advance_t q carry = 18782 * q + carry"

definition advance_x :: "nat \<Rightarrow> nat \<Rightarrow> nat" where
  "advance_x q carry = (advance_t q carry mod 2 ^ 32 + advance_t q carry div 2 ^ 32) mod 2 ^ 32"

definition advance_carry :: "nat \<Rightarrow> nat \<Rightarrow> nat" where
  "advance_carry q carry =
     (if advance_x q carry < advance_t q carry div 2 ^ 32 then advance_t q carry div 2 ^ 32 + 1
      else advance_t q carry div 2 ^ 32)"

definition advance_stored :: "nat \<Rightarrow> nat \<Rightarrow> nat" where
  "advance_stored q carry =
     (let x = (if advance_x q carry < advance_t q carry div 2 ^ 32 then advance_x q carry + 1
               else advance_x q carry)
      in (2 ^ 32 + 0xFFFFFFFE - x) mod 2 ^ 32)"

section \<open>Counter\<close>

record cuid_counter_t =
  counter_value :: "32 word"

definition cuid_create_counter :: cuid_counter_t where
  "cuid_create_counter = \<lparr>counter_value = 0\<rparr>"

definition cuid_init_counter :: "cuid_counter_t \<Rightarrow> cuid_counter_t" where
  "cuid_init_counter c = c\<lparr>counter_value := 0\<rparr>"

definition cuid_read_counter :: "cuid_counter_t \<Rightarrow> 32 word" where
  "cuid_read_counter c = counter_value c"

definition cuid_inc_counter :: "cuid_counter_t \<Rightarrow> cuid_counter_t" where
  "cuid_inc_counter c = c\<lparr>counter_value := counter_value c + 1\<rparr>"

section \<open>Fingerprint\<close>

definition CUID_FINGERPRINT_SIZE :: nat where
  "CUID_FINGERPRINT_SIZE = 5"

definition CUID_HOSTNAME_LENGTH :: nat where
  "CUID_HOSTNAME_LENGTH = 256"

text \<open>
  A call of a function on \<open>&buf[k]\<close>: the callee sees the suffix of the array from index \<open>k\<close>
  and what it writes lands in the caller's array.
\<close>

definition at_offset ::
  "nat \<Rightarrow> (char list \<Rightarrow> error + (char list \<times> 'a)) \<Rightarrow> char list \<Rightarrow> error + (char list \<times> 'a)" where
  "at_offset k f buf =
     (if k \<le> length buf
      then (case f (drop k buf) of Inl e \<Rightarrow> Inl e | Inr (sub, x) \<Rightarrow> Inr (take k buf @ sub, x))
      else Inl Out_Of_Bounds)"

text \<open>
  \<open>gethostname\<close> and \<open>getpid\<close> are external collaborators. A hostname lookup is the pair of
  the error code returned and the 64 words \<open>hostname.values\<close> that the union shows after the
  call; \<open>pid\<close> is the value of \<open>(uint64_t)getpid()\<close>.
\<close>

definition cuid_get_fingerprint ::
  "int \<times> 32 word list \<Rightarrow> 64 word \<Rightarrow> char list \<Rightarrow> error + (char list \<times> nat)" where
  "cuid_get_fingerprint hostname pid result =
     (case hostname of
        (error_code, hostname_values) \<Rightarrow>
          if error_code \<noteq> 0 then Inl Hostname_Failure
          else
            (case cuid_base36_pad
                    (fold (\<lambda>i hostname_number. hostname_number + ucast (hostname_values ! i))
                          [0..<CUID_HOSTNAME_LENGTH div 4] 0)
                    result 2 (CHR ''0'') of
               Inl e \<Rightarrow> Inl e
             | Inr (result1, length1) \<Rightarrow>
                 (case at_offset 2 (\<lambda>b. cuid_base36_pad pid b 2 (CHR ''0'')) result1 of
                    Inl e \<Rightarrow> Inl e
                  | Inr (result2, length2) \<Rightarrow> Inr (result2, length1 + length2))))"

section \<open>Pure API\<close>

definition CUID_SIZE :: nat where
  "CUID_SIZE = 24"

definition CUID_TIMESTAMP_LENGTH :: nat where
  "CUID_TIMESTAMP_LENGTH = 6"

definition CUID_BLOCK_LENGTH :: nat where
  "CUID_BLOCK_LENGTH = 4"

record cuid_t =
  cuid_fingerprint :: "char list"
  cuid_counter :: cuid_counter_t
  cuid_counter_str :: "char list"
  cuid_rnd1 :: mwc_random_t
  cuid_rnd2 :: mwc_random_t
  cuid_rnd1_str :: "char list"
  cuid_rnd2_str :: "char list"
  cuid_value :: "char list"
  cuid_timestamp :: "char list"

text \<open>The arrays of a \<open>cuid_t\<close> and of its two generators have their declared sizes.\<close>

definition cuid_sized :: "cuid_t \<Rightarrow> bool" where
  "cuid_sized cid \<longleftrightarrow>
     length (cuid_fingerprint cid) = CUID_BASE36_RESULT_SIZE \<and>
     length (cuid_counter_str cid) = CUID_BASE36_RESULT_SIZE \<and>
     length (cuid_rnd1_str cid) = CUID_BASE36_RESULT_SIZE \<and>
     length (cuid_rnd2_str cid) = CUID_BASE36_RESULT_SIZE \<and>
     length (cuid_timestamp cid) = CUID_BASE36_RESULT_SIZE \<and>
     length (cuid_value cid) = CUID_SIZE \<and>
     length (mwc_q (cuid_rnd1 cid)) = MWC_CYCLE \<and>
     length (mwc_initial_q (cuid_rnd1 cid)) = MWC_CYCLE \<and>
     length (mwc_q (cuid_rnd2 cid)) = MWC_CYCLE \<and>
     length (mwc_initial_q (cuid_rnd2 cid)) = MWC_CYCLE"

text \<open>
  \<open>cuid_create\<close> zero-initialises the structure, creates the two generators (the model draws
  for \<open>cuid_rnd1\<close> first) and copies \<open>CUID_FINGERPRINT_SIZE\<close> characters from its argument.
\<close>

definition cuid_create ::
  "char list \<Rightarrow> (nat \<Rightarrow> 32 word) \<Rightarrow> nat \<Rightarrow> (error + (cuid_t \<times> nat)) option" where
  "cuid_create fingerprint rand32 k =
     (case mwc_create rand32 k of
        None \<Rightarrow> None
      | Some (rnd1, k1) \<Rightarrow>
          (case mwc_create rand32 k1 of
             None \<Rightarrow> None
           | Some (rnd2, k2) \<Rightarrow>
               Some (case for_loop 0 CUID_FINGERPRINT_SIZE
                            (\<lambda>i cid. case buf_read fingerprint i of
                                      Inl e \<Rightarrow> Inl e
                                    | Inr c \<Rightarrow> Inr (cid\<lparr>cuid_fingerprint := (cuid_fingerprint cid)[i := c]\<rparr>))
                            \<lparr>cuid_fingerprint = replicate CUID_BASE36_RESULT_SIZE NUL,
                             cuid_counter = cuid_create_counter,
                             cuid_counter_str = replicate CUID_BASE36_RESULT_SIZE NUL,
                             cuid_rnd1 = rnd1, cuid_rnd2 = rnd2,
                             cuid_rnd1_str = replicate CUID_BASE36_RESULT_SIZE NUL,
                             cuid_rnd2_str = replicate CUID_BASE36_RESULT_SIZE NUL,
                             cuid_value = replicate CUID_SIZE NUL,
                             cuid_timestamp = replicate CUID_BASE36_RESULT_SIZE NUL\<rparr> of
                       Inl e \<Rightarrow> Inl e
                     | Inr cid \<Rightarrow> Inr (cid, k2))))"

text \<open>The copy loops between the arrays of the structure: \<open>dst[off + i] = src[i]\<close> for \<open>i < n\<close>.\<close>

definition copy_chars :: "nat \<Rightarrow> nat \<Rightarrow> char list \<Rightarrow> char list \<Rightarrow> char list" where
  "copy_chars n off src dst = fold (\<lambda>i d. d[off + i := src ! i]) [0..<n] dst"

definition cuid_gen_value_string :: "cuid_t \<Rightarrow> error + cuid_t" where
  "cuid_gen_value_string cid =
     (let id1 = cid\<lparr>cuid_value := (cuid_value cid)[0 := CHR ''c'']\<rparr>;
          id2 = id1\<lparr>cuid_value := copy_chars CUID_TIMESTAMP_LENGTH 1 (cuid_timestamp id1) (cuid_value id1)\<rparr>
      in case cuid_base36_pad (ucast (cuid_read_counter (cuid_counter id2))) (cuid_counter_str id2)
                (of_nat CUID_BLOCK_LENGTH) (CHR ''0'') of
           Inl e \<Rightarrow> Inl e
         | Inr (counter_str, _) \<Rightarrow>
             (let id3 = id2\<lparr>cuid_counter_str := counter_str\<rparr>;
                  id4 = id3\<lparr>cuid_value := copy_chars CUID_BLOCK_LENGTH (CUID_TIMESTAMP_LENGTH + 1)
                                             (cuid_counter_str id3) (cuid_value id3)\<rparr>;
                  id5 = id4\<lparr>cuid_value := copy_chars CUID_BLOCK_LENGTH
                                             (CUID_BLOCK_LENGTH + CUID_TIMESTAMP_LENGTH + 1)
                                             (cuid_fingerprint id4) (cuid_value id4)\<rparr>
              in case cuid_base36_pad (ucast (mwc_read_random (cuid_rnd1 id5))) (cuid_rnd1_str id5)
                        (of_nat CUID_BLOCK_LENGTH) (CHR ''0'') of
                   Inl e \<Rightarrow> Inl e
                 | Inr (rnd1_str, _) \<Rightarrow>
                     (let id6 = id5\<lparr>cuid_rnd1_str := rnd1_str\<rparr>;
                          id7 = id6\<lparr>cuid_value := copy_chars CUID_BLOCK_LENGTH
                                                     (2 * CUID_BLOCK_LENGTH + CUID_TIMESTAMP_LENGTH + 1)
                                                     (cuid_rnd1_str id6) (cuid_value id6)\<rparr>
                      in case cuid_base36_pad (ucast (mwc_read_random (cuid_rnd2 id7)))
                                (cuid_rnd2_str id7) (of_nat CUID_BLOCK_LENGTH) (CHR ''0'') of
                           Inl e \<Rightarrow> Inl e
                         | Inr (rnd2_str, _) \<Rightarrow>
                             (let id8 = id7\<lparr>cuid_rnd2_str := rnd2_str\<rparr>
                              in Inr (id8\<lparr>cuid_value := copy_chars CUID_BLOCK_LENGTH
                                                           (3 * CUID_BLOCK_LENGTH + CUID_TIMESTAMP_LENGTH + 1)
                                                           (cuid_rnd2_str id8) (cuid_value id8)\<rparr>)))))"

text \<open>The \<open>unsigned long\<close> timestamp is converted to \<open>uint64_t\<close> at the call of the codec.\<close>

definition cuid_init :: "cuid_t \<Rightarrow> 64 word \<Rightarrow> error + cuid_t" where
  "cuid_init cid timestamp =
     (let id1 = cid\<lparr>cuid_counter := cuid_init_counter (cuid_counter cid)\<rparr>;
          id2 = id1\<lparr>cuid_rnd1 := mwc_init (cuid_rnd1 id1)\<rparr>;
          id3 = id2\<lparr>cuid_rnd2 := mwc_init (cuid_rnd2 id2)\<rparr>
      in case cuid_base36_pad timestamp (cuid_timestamp id3) (of_nat CUID_TIMESTAMP_LENGTH) (CHR ''0'') of
           Inl e \<Rightarrow> Inl e
         | Inr (timestamp_str, _) \<Rightarrow>
             cuid_gen_value_string
               (id3\<lparr>cuid_timestamp := timestamp_str,
                    cuid_value := fold (\<lambda>i v. v[i := NUL]) [0..<CUID_SIZE] (cuid_value id3)\<rparr>))"

definition cuid_read :: "cuid_t \<Rightarrow> char list \<Rightarrow> error + char list" where
  "cuid_read cid destination =
     for_loop 0 CUID_SIZE (\<lambda>i d. buf_write d i (cuid_value cid ! i)) destination"

definition cuid_next :: "cuid_t \<Rightarrow> 64 word \<Rightarrow> error + cuid_t" where
  "cuid_next cid timestamp =
     (let id1 = cid\<lparr>cuid_counter := cuid_inc_counter (cuid_counter cid)\<rparr>;
          id2 = id1\<lparr>cuid_rnd1 := mwc_next_random (cuid_rnd1 id1)\<rparr>;
          id3 = id2\<lparr>cuid_rnd2 := mwc_next_random (cuid_rnd2 id2)\<rparr>
      in case cuid_base36_pad timestamp (cuid_timestamp id3) (of_nat CUID_TIMESTAMP_LENGTH) (CHR ''0'') of
           Inl e \<Rightarrow> Inl e
         | Inr (timestamp_str, _) \<Rightarrow> cuid_gen_value_string (id3\<lparr>cuid_timestamp := timestamp_str\<rparr>))"

text \<open>A context after \<open>cuid_init\<close>, advanced by one \<open>cuid_next\<close> call for each timestamp of a list.\<close>

fun cuid_next_all :: "cuid_t \<Rightarrow> 64 word list \<Rightarrow> error + cuid_t" where
  "cuid_next_all cid [] = Inr cid"
| "cuid_next_all cid (timestamp # rest) =
     (case cuid_next cid timestamp of Inl e \<Rightarrow> Inl e | Inr cid' \<Rightarrow> cuid_next_all cid' rest)"

text \<open>
  The rendering rule as the specification words it: the letter, then the timestamp, counter,
  fingerprint and random blocks, 23 characters in all when the fingerprint has 4.
\<close>

definition cuid_layout :: "64 word \<Rightarrow> 32 word \<Rightarrow> char list \<Rightarrow> 32 word \<Rightarrow> 32 word \<Rightarrow> char list" where
  "cuid_layout timestamp counter fingerprint rand1 rand2 =
     CHR ''c'' # encode_padded (unat timestamp) 6 (CHR ''0'') @
     encode_padded (unat counter) 4 (CHR ''0'') @
     take 4 fingerprint @
     encode_padded (unat rand1) 4 (CHR ''0'') @
     encode_padded (unat rand2) 4 (CHR ''0'')"

section \<open>Quick mode\<close>

text \<open>
  The function \<open>cuid\<close> with the default collaborators. \<open>timestamp\<close> is the value returned by
  \<open>CUID_GET_TIMESTAMP()\<close>, the pair \<open>(counter, k)\<close> is the static counter before the call and
  the number of draws made from \<open>MWC_SYSTEM_RAND32\<close> so far. The result is the caller's array,
  the length returned, the static counter and the number of draws after the call.
\<close>

definition cuid ::
  "64 word \<Rightarrow> int \<times> 32 word list \<Rightarrow> 64 word \<Rightarrow> (nat \<Rightarrow> 32 word) \<Rightarrow> 32 word \<times> nat \<Rightarrow> char list
     \<Rightarrow> error + (char list \<times> nat \<times> 32 word \<times> nat)" where
  "cuid timestamp hostname pid rand32 st result =
     (case st of
        (counter, k) \<Rightarrow>
          (case buf_write result 0 (CHR ''c'') of
             Inl e \<Rightarrow> Inl e
           | Inr r0 \<Rightarrow>
               (case at_offset 1 (\<lambda>b. cuid_base36_pad timestamp b 6 (CHR ''0'')) r0 of
                  Inl e \<Rightarrow> Inl e
                | Inr (r1, n1) \<Rightarrow>
                    (case at_offset (1 + n1)
                            (\<lambda>b. cuid_base36_pad (ucast (counter + 1)) b 4 (CHR ''0'')) r1 of
                       Inl e \<Rightarrow> Inl e
                     | Inr (r2, n2) \<Rightarrow>
                         (case at_offset (1 + n1 + n2) (cuid_get_fingerprint hostname pid) r2 of
                            Inl e \<Rightarrow> Inl e
                          | Inr (r3, n3) \<Rightarrow>
                              (case at_offset (1 + n1 + n2 + n3)
                                      (\<lambda>b. cuid_base36_pad (ucast (rand32 k)) b 4 (CHR ''0'')) r3 of
                                 Inl e \<Rightarrow> Inl e
                               | Inr (r4, n4) \<Rightarrow>
                                   (case at_offset (1 + n1 + n2 + n3 + n4)
                                           (\<lambda>b. cuid_base36_pad (ucast (rand32 (Suc k))) b 4 (CHR ''0''))
                                           r4 of
                                      Inl e \<Rightarrow> Inl e
                                    | Inr (r5, n5) \<Rightarrow>
                                        (case buf_write r5 (CUID_SIZE - 1) NUL of
                                           Inl e \<Rightarrow> Inl e
                                         | Inr r6 \<Rightarrow>
                                             Inr (r6, 1 + n1 + n2 + n3 + n4 + n5, counter + 1,
                                                  Suc (Suc k))))))))))"

section \<open>Loops and the codec\<close>

lemma for_loop_inv:
  assumes "I i s" and "i \<le> hi"
    and step: "\<And>j t. i \<le> j \<Longrightarrow> j < hi \<Longrightarrow> I j t \<Longrightarrow> \<exists>t'. body j t = Inr t' \<and> I (Suc j) t'"
  shows "\<exists>t. for_loop i hi body s = Inr t \<and> I hi t"
  using assms
proof (induction "hi - i" arbitrary: i s)
  case 0
  then have "i = hi" by simp
  with 0 show ?case by (simp add: for_loop.simps)
next
  case (Suc d)
  then have lt: "i < hi" by simp
  from Suc.prems(3)[OF le_refl lt Suc.prems(1)]
  obtain t' where t': "body i s = Inr t'" "I (Suc i) t'" by blast
  have "\<exists>t. for_loop (Suc i) hi body t' = Inr t \<and> I hi t"
  proof (rule Suc.hyps(1))
    show "d = hi - Suc i" using Suc.hyps(2) by simp
    show "I (Suc i) t'" by (rule t')
    show "Suc i \<le> hi" using lt by simp
    show "\<And>j t. Suc i \<le> j \<Longrightarrow> j < hi \<Longrightarrow> I j t \<Longrightarrow> \<exists>t'. body j t = Inr t' \<and> I (Suc j) t'"
      using Suc.prems(3) by simp
  qed
  then show ?case using lt t' by (subst for_loop.simps) simp
qed

lemma for_loop_error:
  assumes "\<And>j t e. body j t = Inl e \<Longrightarrow> P e"
  shows "for_loop i hi body s = Inl e \<Longrightarrow> P e"
  using assms
proof (induction i hi body s rule: for_loop.induct)
  case (1 i hi body s)
  show ?case
  proof (cases "i < hi")
    case False
    with "1.prems"(1) show ?thesis by (simp add: for_loop.simps)
  next
    case True
    show ?thesis
    proof (cases "body i s")
      case (Inl e')
      with True "1.prems"(1) have "e' = e" by (simp add: for_loop.simps)
      with Inl "1.prems"(2) show ?thesis by blast
    next
      case (Inr s')
      with True "1.prems"(1) have "for_loop (Suc i) hi body s' = Inl e" by (simp add: for_loop.simps)
      then show ?thesis using "1.IH" True Inr "1.prems"(2) by blast
    qed
  qed
qed

lemma encode_nonempty: "encode n \<noteq> []"
  by (subst encode.simps) simp

lemma length_encode_le: "0 < k \<Longrightarrow> n < 36 ^ k \<Longrightarrow> length (encode n) \<le> k"
proof (induction n arbitrary: k rule: encode.induct)
  case (1 n)
  show ?case
  proof (cases "n < 36")
    case True
    then show ?thesis using "1.prems" by (subst encode.simps) simp
  next
    case False
    then have "k \<noteq> 1" using "1.prems" by auto
    then obtain k' where k: "k = Suc k'" "0 < k'" using "1.prems"(1) by (cases k) auto
    have "n div 36 < 36 ^ k'" using "1.prems"(2) k
      by (simp add: less_mult_imp_div_less mult.commute)
    from "1.IH"[OF False k(2) this] show ?thesis using False k by (subst encode.simps) simp
  qed
qed

lemma length_encode_unat: "length (encode (unat (n :: 64 word))) \<le> 13"
proof -
  have "unat n < 2 ^ 64" using unsigned_less[of n] by simp
  also have "(2::nat) ^ 64 < 36 ^ 13" by simp
  finally show ?thesis using length_encode_le[of 13 "unat n"] by simp
qed

lemma word36_div_pos: "(0 < (n :: 64 word) div 36) = (36 \<le> unat n)"
proof -
  have "(0 < n div 36) = (0 < unat (n div 36))" by (simp add: word_less_nat_alt)
  also have "unat (n div 36) = unat n div 36" by (simp add: unat_div)
  finally show ?thesis by (simp add: div_greater_zero_iff)
qed

lemma word36_mod: "unat ((n :: 64 word) mod 36) = unat n mod 36"
  by (simp add: unat_mod)

lemma word36_div: "unat ((n :: 64 word) div 36) = unat n div 36"
  by (simp add: unat_div)

lemma cuid_base36_digits_eq:
  "len + length (encode (unat n)) \<le> 15 \<Longrightarrow> length inverted = 16 \<Longrightarrow>
   cuid_base36_digits n inverted len = (inverted', len') \<Longrightarrow>
   len' = len + length (encode (unat n)) \<and> length inverted' = 16 \<and>
   take len' inverted' = take len inverted @ rev (encode (unat n))"
proof (induction n inverted len arbitrary: inverted' len' rule: cuid_base36_digits.induct)
  case (1 n inverted len)
  let ?d = "cuid_radix36_table ! unat (n mod 36)"
  show ?case
  proof (cases "36 \<le> unat n")
    case False
    then have enc: "encode (unat n) = [cuid_radix36_table ! unat n]"
      by (subst encode.simps) simp
    from False have "unat (n mod 36) = unat n" by (simp add: word36_mod)
    moreover from False "1.prems"(3) have "inverted' = inverted[len := ?d]" "len' = Suc len"
      by (simp_all add: cuid_base36_digits.simps[of n] word36_div_pos)
    ultimately show ?thesis using "1.prems"(1,2) enc
      by (simp add: take_Suc_conv_app_nth)
  next
    case True
    then have enc: "encode (unat n) = encode (unat (n div 36)) @ [?d]"
      by (subst encode.simps) (simp add: word36_div word36_mod)
    have ne: "encode (unat (n div 36)) \<noteq> []" by (rule encode_nonempty)
    then have "0 < length (encode (unat (n div 36)))" by simp
    moreover have "length (encode (unat n)) = Suc (length (encode (unat (n div 36))))"
      by (simp add: enc)
    ultimately have small: "Suc len < CUID_BASE36_RESULT_SIZE - 1"
      using "1.prems"(1) unfolding CUID_BASE36_RESULT_SIZE_def by linarith
    with True "1.prems"(3)
    have rec: "cuid_base36_digits (n div 36) (inverted[len := ?d]) (Suc len) = (inverted', len')"
      by (simp add: cuid_base36_digits.simps[of n] word36_div_pos)
    have "len' = Suc len + length (encode (unat (n div 36))) \<and> length inverted' = 16 \<and>
          take len' inverted' = take (Suc len) (inverted[len := ?d]) @ rev (encode (unat (n div 36)))"
    proof (rule "1.IH")
      show "0 < n div 36 \<and> Suc len < CUID_BASE36_RESULT_SIZE - 1"
        using True small by (simp add: word36_div_pos)
      show "Suc len + length (encode (unat (n div 36))) \<le> 15" using "1.prems"(1) enc by simp
      show "length (inverted[len := ?d]) = 16" using "1.prems"(2) by simp
      show "cuid_base36_digits (n div 36) (inverted[len := ?d]) (Suc len) = (inverted', len')"
        by (rule rec)
    qed
    moreover have "take (Suc len) (inverted[len := ?d]) = take len inverted @ [?d]"
      using "1.prems"(1,2) by (simp add: take_Suc_conv_app_nth)
    ultimately show ?thesis using enc by auto
  qed
qed

lemma cuid_base36_digits_encode:
  "\<exists>inverted. cuid_base36_digits n (replicate CUID_BASE36_RESULT_SIZE NUL) 0
       = (inverted, length (encode (unat n))) \<and>
     take (length (encode (unat n))) inverted = rev (encode (unat n))"
proof -
  obtain inverted' len' where
    r: "cuid_base36_digits n (replicate CUID_BASE36_RESULT_SIZE NUL) 0 = (inverted', len')"
    by (cases "cuid_base36_digits n (replicate CUID_BASE36_RESULT_SIZE NUL) 0")
  have "0 + length (encode (unat n)) \<le> 15" using length_encode_unat[of n] by simp
  from cuid_base36_digits_eq[OF this _ r] show ?thesis using r
    by (auto simp add: CUID_BASE36_RESULT_SIZE_def)
qed

lemma cuid_base36_ok:
  assumes "length (encode (unat n)) < length buf"
  shows "cuid_base36 n buf
           = Inr (encode (unat n) @ NUL # drop (Suc (length (encode (unat n)))) buf,
                  length (encode (unat n)))"
proof -
  let ?e = "encode (unat n)"
  let ?L = "length ?e"
  obtain inverted where
    d: "cuid_base36_digits n (replicate CUID_BASE36_RESULT_SIZE NUL) 0 = (inverted, ?L)"
    and t: "take ?L inverted = rev ?e"
    using cuid_base36_digits_encode by blast
  have pos: "0 < ?L" using encode_nonempty[of "unat n"] by simp
  have nth: "inverted ! (?L - 1 - i) = ?e ! i" if "i < ?L" for i
  proof -
    have "inverted ! (?L - 1 - i) = take ?L inverted ! (?L - 1 - i)" using that by simp
    also have "\<dots> = rev ?e ! (?L - 1 - i)" by (simp only: t)
    also have "\<dots> = ?e ! i" using that by (simp add: rev_nth)
    finally show ?thesis .
  qed
  have "\<exists>b. for_loop 0 ?L (\<lambda>i buf. buf_write buf i (inverted ! (?L - 1 - i))) buf = Inr b
          \<and> b = take ?L ?e @ drop ?L buf"
  proof (rule for_loop_inv[where I = "\<lambda>j b. b = take j ?e @ drop j buf"])
    show "buf = take 0 ?e @ drop 0 buf" by simp
    show "0 \<le> ?L" by simp
    fix j b
    assume j: "0 \<le> j" "j < ?L" and b: "b = take j ?e @ drop j buf"
    have "b[j := ?e ! j] = take (Suc j) ?e @ drop (Suc j) buf"
      using j assms b
      by (simp add: list_update_append take_Suc_conv_app_nth upd_conv_take_nth_drop
          Cons_nth_drop_Suc)
    moreover have "j < length b" using j assms b by simp
    ultimately show "\<exists>t'. buf_write b j (inverted ! (?L - 1 - j)) = Inr t'
                      \<and> t' = take (Suc j) ?e @ drop (Suc j) buf"
      using nth[OF j(2)] by (simp add: buf_write_def)
  qed
  then have loop: "for_loop 0 ?L (\<lambda>i buf. buf_write buf i (inverted ! (?L - 1 - i))) buf
                     = Inr (?e @ drop ?L buf)" by simp
  have "(?e @ drop ?L buf)[?L := NUL] = ?e @ NUL # drop (Suc ?L) buf"
    using assms by (simp add: list_update_append upd_conv_take_nth_drop)
  then show ?thesis using d loop pos assms by (simp add: cuid_base36_def buf_write_def)
qed

lemma length_encode_padded: "length (encode_padded n w pc) = w"
  by (simp add: encode_padded_def)

lemma pad_shift_loop:
  assumes L: "length e < w" and w: "w < length b0" and b0: "take (Suc (length e)) b0 = e @ [NUL]"
  shows "for_loop 0 (Suc w)
           (\<lambda>i b. if i > length e then buf_write b (w - i) pc
                   else (case buf_read b (length e - i) of
                           Inl err \<Rightarrow> Inl err
                         | Inr c \<Rightarrow> buf_write b (w - i) c)) b0
         = Inr (replicate (w - length e) pc @ e @ NUL # drop (Suc w) b0)"
proof -
  let ?L = "length e"
  let ?target = "replicate (w - ?L) pc @ e @ [NUL]"
  let ?body = "\<lambda>i b. if i > ?L then buf_write b (w - i) pc
                   else (case buf_read b (?L - i) of
                           Inl err \<Rightarrow> Inl err
                         | Inr c \<Rightarrow> buf_write b (w - i) c)"
  let ?I = "\<lambda>k b. length b = length b0 \<and>
              (\<forall>j < length b0. b ! j = (if w < j + k \<and> j \<le> w then ?target ! j else b0 ! j))"
  have b0nth: "b0 ! j = (e @ [NUL]) ! j" if "j \<le> ?L" for j
  proof -
    have "b0 ! j = take (Suc ?L) b0 ! j" using that by simp
    then show ?thesis by (simp only: b0)
  qed
  have tnth: "?target ! (w - k) = (if ?L < k then pc else (e @ [NUL]) ! (?L - k))" if "k \<le> w" for k
  proof (cases "?L < k")
    case True
    then have "w - k < w - ?L" using that L by arith
    then show ?thesis using True by (simp add: nth_append)
  next
    case False
    then have "\<not> w - k < w - ?L" and "w - k - (w - ?L) = ?L - k" using that L by arith+
    then show ?thesis using False by (simp add: nth_append del: append.simps)
  qed
  have "\<exists>b. for_loop 0 (Suc w) ?body b0 = Inr b \<and> ?I (Suc w) b"
  proof (rule for_loop_inv[where I = ?I])
    show "?I 0 b0" by auto
    show "0 \<le> Suc w" by simp
    fix k b
    assume k: "0 \<le> k" "k < Suc w" and I: "?I k b"
    let ?v = "if ?L < k then pc else (e @ [NUL]) ! (?L - k)"
    have inb: "w - k < length b" using I w by simp
    have rd: "b ! (?L - k) = (e @ [NUL]) ! (?L - k)" if "\<not> ?L < k"
    proof -
      have lt: "?L - k < length b0" using L w by simp
      have no: "\<not> w < (?L - k) + k" using that L by arith
      from I have "b ! (?L - k) = (if w < (?L - k) + k \<and> ?L - k \<le> w
                                  then ?target ! (?L - k) else b0 ! (?L - k))"
        using lt by blast
      with no have "b ! (?L - k) = b0 ! (?L - k)" by simp
      then show ?thesis using b0nth[of "?L - k"] by simp
    qed
    have step: "?body k b = Inr (b[w - k := ?v])"
    proof (cases "?L < k")
      case True
      then show ?thesis using inb by (simp add: buf_write_def)
    next
      case False
      moreover have "?L - k < length b" using I L w by simp
      ultimately show ?thesis using inb rd by (simp add: buf_write_def buf_read_def)
    qed
    have "?I (Suc k) (b[w - k := ?v])"
    proof (intro conjI allI impI)
      show "length (b[w - k := ?v]) = length b0" using I by simp
      fix j assume j: "j < length b0"
      show "b[w - k := ?v] ! j = (if w < j + Suc k \<and> j \<le> w then ?target ! j else b0 ! j)"
      proof (cases "j = w - k")
        case True
        then have "w < j + Suc k \<and> j \<le> w" using k by arith
        moreover have "b[w - k := ?v] ! j = ?v" using True inb by simp
        moreover have "?target ! j = ?v" using tnth[of k] k True by simp
        ultimately show ?thesis by simp
      next
        case False
        then have "b[w - k := ?v] ! j = b ! j" by simp
        moreover have "(w < j + Suc k \<and> j \<le> w) = (w < j + k \<and> j \<le> w)" using False k by arith
        ultimately show ?thesis using I j by simp
      qed
    qed
    with step show "\<exists>t'. ?body k b = Inr t' \<and> ?I (Suc k) t'" by blast
  qed
  then obtain b where b: "for_loop 0 (Suc w) ?body b0 = Inr b" and Ib: "?I (Suc w) b" by blast
  have "b = replicate (w - ?L) pc @ e @ NUL # drop (Suc w) b0"
  proof (rule nth_equalityI)
    show "length b = length (replicate (w - ?L) pc @ e @ NUL # drop (Suc w) b0)"
      using Ib L w by simp
    fix j assume "j < length b"
    then have j: "j < length b0" using Ib by simp
    have tl: "length ?target = Suc w" using L by simp
    have eq: "replicate (w - ?L) pc @ e @ NUL # drop (Suc w) b0 = ?target @ drop (Suc w) b0"
      by simp
    show "b ! j = (replicate (w - ?L) pc @ e @ NUL # drop (Suc w) b0) ! j"
    proof (cases "j \<le> w")
      case True
      then have "b ! j = ?target ! j" using Ib j by simp
      moreover have "(?target @ drop (Suc w) b0) ! j = ?target ! j"
        using True tl by (simp only: nth_append) simp
      ultimately show ?thesis by (simp only: eq)
    next
      case False
      then have "b ! j = b0 ! j" using Ib j by simp
      moreover have "(?target @ drop (Suc w) b0) ! j = drop (Suc w) b0 ! (j - Suc w)"
        using False tl by (simp only: nth_append) simp
      moreover have "drop (Suc w) b0 ! (j - Suc w) = b0 ! j" using False j by simp
      ultimately show ?thesis by (simp only: eq)
    qed
  qed
  with b show ?thesis by simp
qed

lemma clip_shift_loop:
  assumes L: "w < length e" and b0: "take (Suc (length e)) b0 = e @ [NUL]"
    and len: "length e < length b0"
  shows "for_loop 0 (Suc w)
           (\<lambda>i b. case buf_read b (i + (length e - w)) of
                     Inl err \<Rightarrow> Inl err
                   | Inr c \<Rightarrow> buf_write b i c) b0
         = Inr (drop (length e - w) e @ NUL # drop (Suc w) b0)"
proof -
  let ?L = "length e"
  let ?diff = "?L - w"
  let ?body = "\<lambda>i b. case buf_read b (i + ?diff) of Inl err \<Rightarrow> Inl err | Inr c \<Rightarrow> buf_write b i c"
  let ?I = "\<lambda>k b. length b = length b0 \<and>
              (\<forall>j < length b0. b ! j = (if j < k then b0 ! (j + ?diff) else b0 ! j))"
  have b0nth: "b0 ! j = (e @ [NUL]) ! j" if "j \<le> ?L" for j
  proof -
    have "b0 ! j = take (Suc ?L) b0 ! j" using that by simp
    then show ?thesis by (simp only: b0)
  qed
  have "\<exists>b. for_loop 0 (Suc w) ?body b0 = Inr b \<and> ?I (Suc w) b"
  proof (rule for_loop_inv[where I = ?I])
    show "?I 0 b0" by auto
    show "0 \<le> Suc w" by simp
    fix k b
    assume k: "0 \<le> k" "k < Suc w" and I: "?I k b"
    have inr: "k + ?diff < length b" using I L len k by simp
    have inw: "k < length b" using inr by simp
    have "b ! (k + ?diff) = b0 ! (k + ?diff)" using I inr L by simp
    then have step: "?body k b = Inr (b[k := b0 ! (k + ?diff)])"
      using inr inw by (simp add: buf_read_def buf_write_def)
    have "?I (Suc k) (b[k := b0 ! (k + ?diff)])"
    proof (intro conjI allI impI)
      show "length (b[k := b0 ! (k + ?diff)]) = length b0" using I by simp
      fix j assume j: "j < length b0"
      show "b[k := b0 ! (k + ?diff)] ! j = (if j < Suc k then b0 ! (j + ?diff) else b0 ! j)"
      proof (cases "j = k")
        case True
        then show ?thesis using inw by simp
      next
        case False
        then have "(j < Suc k) = (j < k)" by arith
        then show ?thesis using False I j by simp
      qed
    qed
    with step show "\<exists>t'. ?body k b = Inr t' \<and> ?I (Suc k) t'" by blast
  qed
  then obtain b where b: "for_loop 0 (Suc w) ?body b0 = Inr b" and Ib: "?I (Suc w) b" by blast
  have "b = drop ?diff e @ NUL # drop (Suc w) b0"
  proof (rule nth_equalityI)
    show "length b = length (drop ?diff e @ NUL # drop (Suc w) b0)"
      using Ib L len by simp
    fix j assume "j < length b"
    then have j: "j < length b0" using Ib by simp
    have eq: "drop ?diff e @ NUL # drop (Suc w) b0 = (drop ?diff e @ [NUL]) @ drop (Suc w) b0"
      by simp
    have tl: "length (drop ?diff e @ [NUL]) = Suc w" using L by simp
    show "b ! j = (drop ?diff e @ NUL # drop (Suc w) b0) ! j"
    proof (cases "j \<le> w")
      case True
      then have "b ! j = b0 ! (j + ?diff)" using Ib j by simp
      also have "\<dots> = (e @ [NUL]) ! (j + ?diff)" using True L by (intro b0nth) simp
      also have "\<dots> = (drop ?diff e @ [NUL]) ! j"
      proof -
        have "drop ?diff (e @ [NUL]) = drop ?diff e @ [NUL]" by simp
        moreover have "drop ?diff (e @ [NUL]) ! j = (e @ [NUL]) ! (?diff + j)"
          using True L by (intro nth_drop) simp
        ultimately show ?thesis by (simp add: add.commute)
      qed
      also have "\<dots> = ((drop ?diff e @ [NUL]) @ drop (Suc w) b0) ! j"
        using True tl by (simp only: nth_append) simp
      finally show ?thesis by (simp only: eq)
    next
      case False
      then have "b ! j = b0 ! j" using Ib j by simp
      moreover have "((drop ?diff e @ [NUL]) @ drop (Suc w) b0) ! j = drop (Suc w) b0 ! (j - Suc w)"
        using False tl by (simp only: nth_append) simp
      moreover have "drop (Suc w) b0 ! (j - Suc w) = b0 ! j" using False j by simp
      ultimately show ?thesis by (simp only: eq)
    qed
  qed
  with b show ?thesis by simp
qed

lemma cuid_base36_pad_ok:
  assumes w16: "unat w < 16" and L: "length (encode (unat n)) < length buf"
    and w: "unat w < length buf"
  shows "cuid_base36_pad n buf w pc
           = Inr (encode_padded (unat n) (unat w) pc @ NUL #
                    drop (Suc (unat w))
                      (encode (unat n) @ NUL # drop (Suc (length (encode (unat n)))) buf),
                  unat w)"
proof -
  let ?e = "encode (unat n)"
  let ?b0 = "?e @ NUL # drop (Suc (length ?e)) buf"
  have b36: "cuid_base36 n buf = Inr (?b0, length ?e)" by (rule cuid_base36_ok[OF L])
  have tk: "take (Suc (length ?e)) ?b0 = ?e @ [NUL]" by simp
  have lb0: "length ?b0 = length buf" using L by simp
  consider (pad) "length ?e < unat w" | (clip) "unat w < length ?e" | (same) "length ?e = unat w"
    by arith
  then show ?thesis
  proof cases
    case pad
    have "unat w < length ?b0" using w lb0 by simp
    from pad_shift_loop[OF pad this tk, of pc] show ?thesis
      using w16 b36 pad
      by (simp add: cuid_base36_pad_def CUID_BASE36_RESULT_SIZE_def encode_padded_def)
  next
    case clip
    have "length ?e < length ?b0" using L lb0 by simp
    from clip_shift_loop[OF clip tk this] show ?thesis
      using w16 b36 clip
      by (simp add: cuid_base36_pad_def CUID_BASE36_RESULT_SIZE_def encode_padded_def)
  next
    case same
    then show ?thesis
      using w16 b36
      by (simp add: cuid_base36_pad_def CUID_BASE36_RESULT_SIZE_def encode_padded_def)
  qed
qed

lemma cuid_base36_pad_room:
  assumes "unat w < 16" and "16 \<le> length buf"
  shows "\<exists>tail. cuid_base36_pad n buf w pc = Inr (encode_padded (unat n) (unat w) pc @ NUL # tail, unat w)
          \<and> length tail = length buf - Suc (unat w)"
proof -
  have "length (encode (unat n)) < length buf" using length_encode_unat[of n] assms(2) by simp
  moreover have "unat w < length buf" using assms by simp
  ultimately show ?thesis using cuid_base36_pad_ok[OF assms(1), of n buf pc] by simp
qed

lemma buf_write_error: "buf_write b i c = Inl e \<Longrightarrow> e = Out_Of_Bounds"
  by (simp add: buf_write_def split: if_splits)

lemma buf_read_error: "buf_read b i = Inl e \<Longrightarrow> e = Out_Of_Bounds"
  by (simp add: buf_read_def split: if_splits)

lemma cuid_base36_error: "cuid_base36 n buf = Inl e \<Longrightarrow> e = Out_Of_Bounds"
  unfolding cuid_base36_def
  by (auto split: prod.splits sum.splits
      dest: buf_write_error for_loop_error[where P = "\<lambda>e. e = Out_Of_Bounds", rotated])

lemma cuid_base36_pad_error:
  "cuid_base36_pad n buf w pc = Inl e \<Longrightarrow>
     (16 \<le> unat w \<and> e = Bad_Pad_Length) \<or> (unat w < 16 \<and> e = Out_Of_Bounds)"
  unfolding cuid_base36_pad_def CUID_BASE36_RESULT_SIZE_def
  by (auto split: prod.splits sum.splits if_splits
      dest!: cuid_base36_error for_loop_error[where P = "\<lambda>e. e = Out_Of_Bounds", rotated]
      dest: buf_write_error buf_read_error)

lemma encode_1234567890: "encode 1234567890 = ''kf12oi''"
  by (simp add: encode.simps cuid_radix36_table_def)

lemma pad_small_error:
  "unat w < 16 \<Longrightarrow> cuid_base36_pad n b w c = Inl e \<Longrightarrow> e = Out_Of_Bounds"
  by (auto dest: cuid_base36_pad_error)

lemma at_offset_pad_error:
  "unat w < 16 \<Longrightarrow> at_offset k (\<lambda>b. cuid_base36_pad n b w c) buf = Inl e \<Longrightarrow> e = Out_Of_Bounds"
  by (auto simp: at_offset_def split: if_splits sum.splits prod.splits dest: pad_small_error)

lemma cuid_get_fingerprint_error:
  assumes "cuid_get_fingerprint hostname pid result = Inl e"
  shows "e = Out_Of_Bounds \<or> e = Hostname_Failure"
proof -
  obtain ec hv where h: "hostname = (ec, hv)" by (cases hostname)
  have two: "unat (2 :: 8 word) < 16" by simp
  from assms h show ?thesis
    by (auto simp: cuid_get_fingerprint_def split: if_splits sum.splits prod.splits
        dest: pad_small_error[OF two] at_offset_pad_error[OF two])
qed

lemma at_offset_fingerprint_error:
  "at_offset k (cuid_get_fingerprint hostname pid) buf = Inl e \<Longrightarrow>
     e = Out_Of_Bounds \<or> e = Hostname_Failure"
  by (auto simp: at_offset_def split: if_splits sum.splits prod.splits
      dest: cuid_get_fingerprint_error)

lemma cuid_error:
  assumes "cuid timestamp hostname pid rand32 st result = Inl e"
  shows "e = Out_Of_Bounds \<or> e = Hostname_Failure"
proof -
  obtain counter k where st: "st = (counter, k)" by (cases st)
  have six: "unat (6 :: 8 word) < 16" and four: "unat (4 :: 8 word) < 16" by simp_all
  from assms st show ?thesis
    unfolding cuid_def
    by (auto split: sum.splits prod.splits
        dest: buf_write_error at_offset_pad_error[OF six] at_offset_pad_error[OF four]
          at_offset_fingerprint_error)
qed

lemma cuid_gen_value_string_error:
  assumes "cuid_gen_value_string cid = Inl e"
  shows "e = Out_Of_Bounds"
proof -
  have four: "unat (of_nat CUID_BLOCK_LENGTH :: 8 word) < 16" by (simp add: CUID_BLOCK_LENGTH_def)
  from assms show ?thesis
    unfolding cuid_gen_value_string_def Let_def
    by (auto split: sum.splits prod.splits dest: pad_small_error[OF four])
qed

lemma cuid_init_error:
  assumes "cuid_init cid timestamp = Inl e"
  shows "e = Out_Of_Bounds"
proof -
  have six: "unat (of_nat CUID_TIMESTAMP_LENGTH :: 8 word) < 16"
    by (simp add: CUID_TIMESTAMP_LENGTH_def)
  from assms show ?thesis
    unfolding cuid_init_def Let_def
    by (auto split: sum.splits prod.splits
        dest: pad_small_error[OF six] cuid_gen_value_string_error)
qed

lemma cuid_next_error:
  assumes "cuid_next cid timestamp = Inl e"
  shows "e = Out_Of_Bounds"
proof -
  have six: "unat (of_nat CUID_TIMESTAMP_LENGTH :: 8 word) < 16"
    by (simp add: CUID_TIMESTAMP_LENGTH_def)
  from assms show ?thesis
    unfolding cuid_next_def Let_def
    by (auto split: sum.splits prod.splits
        dest: pad_small_error[OF six] cuid_gen_value_string_error)
qed

text \<open>
  Claim C3, for the widths that the guard of \<open>cuid_base36_pad\<close> lets through. With a width of
  at most 15 and a result array of at least \<open>CUID_BASE36_RESULT_SIZE\<close> characters,
  \<open>cuid_base36_pad\<close> returns the width and leaves in the array exactly \<open>width\<close> characters
  followed by the terminator: the plain encoding written by \<open>cuid_base36\<close>, padded on the left
  with the pad character when it is shorter than the width, unchanged when it is as long, and
  cut down to its last \<open>width\<close> characters when it is longer. In particular 1234567890 at
  width 4 gives \<open>12oi\<close>.
\<close>

theorem cuid_base36_pad_width:
  assumes "unat pad_length \<le> 15" and "CUID_BASE36_RESULT_SIZE \<le> length cuid_result"
  shows "(\<exists>plain rest tail.
            cuid_base36 n cuid_result = Inr (plain @ NUL # rest, length plain) \<and>
            plain = encode (unat n) \<and>
            cuid_base36_pad n cuid_result pad_length pad_char
              = Inr ((if length plain < unat pad_length
                      then replicate (unat pad_length - length plain) pad_char @ plain
                      else drop (length plain - unat pad_length) plain) @ NUL # tail,
                     unat pad_length) \<and>
            length (if length plain < unat pad_length
                    then replicate (unat pad_length - length plain) pad_char @ plain
                    else drop (length plain - unat pad_length) plain) = unat pad_length) \<and>
         (\<exists>tail. cuid_base36_pad 1234567890 cuid_result 4 (CHR ''0'')
                   = Inr (''12oi'' @ NUL # tail, 4))"
proof
  have L: "length (encode (unat n)) < length cuid_result"
    using length_encode_unat[of n] assms(2) by (simp add: CUID_BASE36_RESULT_SIZE_def)
  have w: "unat pad_length < 16" using assms(1) by simp
  have wl: "unat pad_length < length cuid_result"
    using assms by (simp add: CUID_BASE36_RESULT_SIZE_def)
  show "\<exists>plain rest tail.
            cuid_base36 n cuid_result = Inr (plain @ NUL # rest, length plain) \<and>
            plain = encode (unat n) \<and>
            cuid_base36_pad n cuid_result pad_length pad_char
              = Inr ((if length plain < unat pad_length
                      then replicate (unat pad_length - length plain) pad_char @ plain
                      else drop (length plain - unat pad_length) plain) @ NUL # tail,
                     unat pad_length) \<and>
            length (if length plain < unat pad_length
                    then replicate (unat pad_length - length plain) pad_char @ plain
                    else drop (length plain - unat pad_length) plain) = unat pad_length"
    using cuid_base36_ok[OF L] cuid_base36_pad_ok[OF w L wl, of pad_char]
    by (simp add: encode_padded_def)
  have "16 \<le> length cuid_result" using assms(2) by (simp add: CUID_BASE36_RESULT_SIZE_def)
  from cuid_base36_pad_room[of 4 cuid_result 1234567890 "CHR ''0''"] this
  show "\<exists>tail. cuid_base36_pad 1234567890 cuid_result 4 (CHR ''0'') = Inr (''12oi'' @ NUL # tail, 4)"
    by (auto simp: encode_padded_def encode_1234567890)
qed

theorem cuid_base36_pad_width_witness:
  "unat (4 :: 8 word) \<le> 15 \<and> CUID_BASE36_RESULT_SIZE \<le> length (replicate 16 NUL) \<and>
   (\<exists>tail. cuid_base36_pad 128 (replicate 16 NUL) 4 (CHR ''z'') = Inr (''zz3k'' @ NUL # tail, 4))"
proof -
  have e: "encode 128 = ''3k''" by (simp add: encode.simps cuid_radix36_table_def)
  have h1: "unat (4 :: 8 word) \<le> 15" by simp
  have h2: "CUID_BASE36_RESULT_SIZE \<le> length (replicate 16 NUL)"
    by (simp add: CUID_BASE36_RESULT_SIZE_def)
  have r: "replicate 2 (CHR ''z'') = ''zz''" by (simp add: numeral_2_eq_2)
  from cuid_base36_pad_width[OF h1 h2, of 128 "CHR ''z''"] e h1 h2 show ?thesis
    by (auto simp: r)
qed

text \<open>At width 16 the guard fires and no string is produced.\<close>

theorem cuid_base36_pad_width_16_fails:
  "cuid_base36_pad 0 (replicate 16 NUL) 16 (CHR ''0'') = Inl Bad_Pad_Length"
  by (simp add: cuid_base36_pad_def CUID_BASE36_RESULT_SIZE_def)

text \<open>
  Claim C7. \<open>cuid_base36_pad\<close> takes its fatal exit exactly when the pad width is greater than
  15, and no call made by the assemblers (\<open>cuid\<close>, \<open>cuid_get_fingerprint\<close>,
  \<open>cuid_gen_value_string\<close>, \<open>cuid_init\<close>, \<open>cuid_next\<close>), whose widths are the constants 6,
  4 and 2, ever takes it.
\<close>

theorem cuid_base36_pad_exit:
  "(cuid_base36_pad n buf w pc = Inl Bad_Pad_Length) = (15 < unat w) \<and>
   cuid timestamp hostname pid rand32 st result \<noteq> Inl Bad_Pad_Length \<and>
   cuid_get_fingerprint hostname pid result \<noteq> Inl Bad_Pad_Length \<and>
   cuid_gen_value_string cid \<noteq> Inl Bad_Pad_Length \<and>
   cuid_init cid timestamp \<noteq> Inl Bad_Pad_Length \<and>
   cuid_next cid timestamp \<noteq> Inl Bad_Pad_Length"
proof (intro conjI)
  show "(cuid_base36_pad n buf w pc = Inl Bad_Pad_Length) = (15 < unat w)"
  proof
    assume "cuid_base36_pad n buf w pc = Inl Bad_Pad_Length"
    from cuid_base36_pad_error[OF this] show "15 < unat w" by auto
  next
    assume "15 < unat w"
    then show "cuid_base36_pad n buf w pc = Inl Bad_Pad_Length"
      by (simp add: cuid_base36_pad_def CUID_BASE36_RESULT_SIZE_def)
  qed
  show "cuid timestamp hostname pid rand32 st result \<noteq> Inl Bad_Pad_Length"
    using cuid_error[of timestamp hostname pid rand32 st result Bad_Pad_Length] by auto
  show "cuid_get_fingerprint hostname pid result \<noteq> Inl Bad_Pad_Length"
    using cuid_get_fingerprint_error[of hostname pid result Bad_Pad_Length] by auto
  show "cuid_gen_value_string cid \<noteq> Inl Bad_Pad_Length"
    using cuid_gen_value_string_error[of cid Bad_Pad_Length] by auto
  show "cuid_init cid timestamp \<noteq> Inl Bad_Pad_Length"
    using cuid_init_error[of cid timestamp Bad_Pad_Length] by auto
  show "cuid_next cid timestamp \<noteq> Inl Bad_Pad_Length"
    using cuid_next_error[of cid timestamp Bad_Pad_Length] by auto
qed

section \<open>The generator\<close>

lemma unat_cycle_mask: "unat ((c + 1) AND of_nat (MWC_CYCLE - 1) :: 32 word) = (unat c + 1) mod 4096"
proof -
  have "(of_nat (MWC_CYCLE - 1) :: 32 word) = mask 12"
    by (simp add: MWC_CYCLE_def mask_eq_exp_minus_1)
  then have "(c + 1) AND of_nat (MWC_CYCLE - 1) = take_bit 12 (c + 1)"
    by (simp add: take_bit_eq_mask)
  then have "unat ((c + 1) AND of_nat (MWC_CYCLE - 1)) = unat (c + 1) mod 2 ^ 12"
    by (simp add: unsigned_take_bit_eq take_bit_eq_mod unat_mod)
  also have "unat (c + 1) = (unat c + 1) mod 2 ^ 32"
    by (simp add: unat_word_ariths)
  also have "(unat c + 1) mod 2 ^ 32 mod 2 ^ 12 = (unat c + 1) mod 2 ^ 12"
    by (rule mod_mod_cancel) simp
  finally show ?thesis by simp
qed

lemma unat_mwc_t:
  "unat (18782 * ucast (q :: 32 word) + ucast (c :: 32 word) :: 64 word) = 18782 * unat q + unat c"
proof -
  have q: "unat q < 2 ^ 32" and c: "unat c < 2 ^ 32" using unsigned_less[of q] unsigned_less[of c] by simp_all
  have uq: "unat (ucast q :: 64 word) = unat q" and uc: "unat (ucast c :: 64 word) = unat c"
    using q c by (simp_all add: unsigned_ucast_eq take_bit_eq_mod)
  have "18782 * unat q + unat c < 2 ^ 64" using q c by simp
  then have sm: "(18782 * unat q + unat c) mod 2 ^ 64 = 18782 * unat q + unat c" by simp
  have "18782 * unat q < 2 ^ 64" using q by simp
  then have sm2: "(18782 * unat q) mod 2 ^ 64 = 18782 * unat q" by simp
  have "unat (18782 * ucast q :: 64 word) = 18782 * unat q"
    using sm2 by (simp add: unat_word_ariths uq)
  then show ?thesis using sm by (simp add: unat_word_ariths uc)
qed

lemma advance_t_div_le: "q < 2 ^ 32 \<Longrightarrow> c < 2 ^ 32 \<Longrightarrow> advance_t q c div 2 ^ 32 \<le> 18782"
proof -
  assume "q < 2 ^ 32" "c < 2 ^ 32"
  then have "advance_t q c < 18783 * 2 ^ 32" by (simp add: advance_t_def)
  then have "advance_t q c div 2 ^ 32 < 18783" by (simp add: less_mult_imp_div_less)
  then show ?thesis by simp
qed

lemma nat_sub_mod:
  fixes a b n :: nat
  assumes "a < n" and "b < n"
  shows "(n + a - b) mod n = (if b \<le> a then a - b else a + n - b)"
proof (cases "b \<le> a")
  case True
  then have "n + a - b = (a - b) + n" by arith
  moreover have "a - b < n" using assms(1) by arith
  ultimately have "(n + a - b) mod n = a - b" by (simp only: mod_add_self2 mod_less)
  then show ?thesis using True by simp
next
  case False
  then have "n + a - b < n" using assms(2) by arith
  then have "(n + a - b) mod n = n + a - b" by (rule mod_less)
  moreover have "n + a - b = a + n - b" by arith
  ultimately show ?thesis using False by simp
qed

lemma unat_sub_mod32: "unat (a - b :: 32 word) = (2 ^ 32 + unat a - unat b) mod 2 ^ 32"
proof -
  have a: "unat a < 2 ^ 32" and b: "unat b < 2 ^ 32"
    using unsigned_less[of a] unsigned_less[of b] by simp_all
  have "unat (a - b) = (if unat b \<le> unat a then unat a - unat b else unat a + 2 ^ 32 - unat b)"
    by (simp add: unat_sub_if_size word_size)
  also have "\<dots> = (2 ^ 32 + unat a - unat b) mod 2 ^ 32"
    by (rule nat_sub_mod[OF a b, symmetric])
  finally show ?thesis .
qed

lemma unat_ucast_low32: "unat (ucast (t :: 64 word) :: 32 word) = unat t mod 2 ^ 32"
  by (simp add: unsigned_ucast_eq take_bit_eq_mod)

lemma unat_ucast_drop32: "unat (ucast (drop_bit 32 (t :: 64 word)) :: 32 word) = unat t div 2 ^ 32"
proof -
  have "unat t < 2 ^ 64" using unsigned_less[of t] by simp
  then have "unat t div 2 ^ 32 < 2 ^ 32" by (simp add: less_mult_imp_div_less)
  then have "(unat t div 2 ^ 32) mod 2 ^ 32 = unat t div 2 ^ 32" by (rule mod_less)
  moreover have "unat (ucast (drop_bit 32 t) :: 32 word) = (unat t div 2 ^ 32) mod 2 ^ 32"
    by (simp add: unat_ucast_low32 unat_drop_bit_eq drop_bit_eq_div unat_div)
  ultimately show ?thesis by simp
qed

lemma unat_add32: "unat (a + b :: 32 word) = (unat a + unat b) mod 2 ^ 32"
  by (simp add: unat_word_ariths)

lemma unat_inc32: "unat a \<le> 18782 \<Longrightarrow> unat (a + 1 :: 32 word) = unat a + 1"
  by (simp add: unat_word_ariths)

lemma mwc_next_random_unfold:
  fixes s :: mwc_random_t
  defines "cyc \<equiv> (mwc_current_cycle s + 1) AND of_nat (MWC_CYCLE - 1)"
  defines "t \<equiv> (18782 * ucast (mwc_q s ! unat cyc) + ucast (mwc_carry s) :: 64 word)"
  defines "cw \<equiv> (ucast (drop_bit 32 t) :: 32 word)"
  defines "xw \<equiv> (ucast t :: 32 word) + cw"
  shows "mwc_next_random s =
           s\<lparr>mwc_current_cycle := cyc, mwc_carry := (if xw < cw then cw + 1 else cw),
             mwc_q := (mwc_q s)[unat cyc := 0xfffffffe - (if xw < cw then xw + 1 else xw)]\<rparr>"
  by (simp add: mwc_next_random_def Let_def cyc_def t_def cw_def xw_def)

lemma mwc_next_random_step:
  fixes s :: mwc_random_t
  defines "cur \<equiv> advance_cursor (unat (mwc_current_cycle s))"
  defines "q \<equiv> unat (mwc_q s ! cur)"
  defines "c \<equiv> unat (mwc_carry s)"
  shows "unat (mwc_current_cycle (mwc_next_random s)) = cur"
    and "unat (mwc_carry (mwc_next_random s)) = advance_carry q c"
    and "mwc_q (mwc_next_random s) = (mwc_q s)[cur := of_nat (advance_stored q c)]"
    and "mwc_initial_q (mwc_next_random s) = mwc_initial_q s"
    and "mwc_initial_carry (mwc_next_random s) = mwc_initial_carry s"
proof -
  define cyc where "cyc = (mwc_current_cycle s + 1) AND of_nat (MWC_CYCLE - 1)"
  define t where "t = (18782 * ucast (mwc_q s ! unat cyc) + ucast (mwc_carry s) :: 64 word)"
  define cw where "cw = (ucast (drop_bit 32 t) :: 32 word)"
  define xw where "xw = (ucast t :: 32 word) + cw"
  define x' where "x' = (if xw < cw then xw + 1 else xw)"
  define c' where "c' = (if xw < cw then cw + 1 else cw)"
  have nx: "mwc_next_random s =
              s\<lparr>mwc_current_cycle := cyc, mwc_carry := c', mwc_q := (mwc_q s)[unat cyc := 0xfffffffe - x']\<rparr>"
    unfolding cyc_def t_def cw_def xw_def x'_def c'_def by (rule mwc_next_random_unfold)
  have cyc: "unat cyc = cur" by (simp only: cyc_def unat_cycle_mask cur_def advance_cursor_def)
  have qb: "q < 2 ^ 32" and cb: "c < 2 ^ 32"
    using unsigned_less[of "mwc_q s ! cur"] unsigned_less[of "mwc_carry s"]
    by (simp_all add: q_def c_def)
  have t: "unat t = advance_t q c"
    by (simp only: t_def unat_mwc_t cyc advance_t_def q_def c_def)
  have dle: "advance_t q c div 2 ^ 32 \<le> 18782" by (rule advance_t_div_le[OF qb cb])
  have cw: "unat cw = advance_t q c div 2 ^ 32"
    by (simp only: cw_def unat_ucast_drop32 t)
  have xw: "unat xw = advance_x q c"
    by (simp only: xw_def unat_add32 unat_ucast_low32 t cw advance_x_def)
  have lt: "(xw < cw) = (advance_x q c < advance_t q c div 2 ^ 32)"
    by (simp only: word_less_nat_alt xw cw)
  have cw1: "unat (cw + 1) = advance_t q c div 2 ^ 32 + 1"
    using unat_inc32[of cw] dle by (simp only: cw)
  have xw1: "unat (xw + 1) = advance_x q c + 1" if "advance_x q c < advance_t q c div 2 ^ 32"
    using unat_inc32[of xw] dle that by (simp only: xw)
  have c': "unat c' = advance_carry q c"
    using cw cw1 by (simp add: c'_def lt advance_carry_def)
  have x': "unat x' = (if advance_x q c < advance_t q c div 2 ^ 32 then advance_x q c + 1
                       else advance_x q c)"
    using xw xw1 by (simp add: x'_def lt)
  have "unat (0xfffffffe - x') = advance_stored q c"
    by (simp only: unat_sub_mod32 advance_stored_def Let_def x') simp
  then have "of_nat (unat (0xfffffffe - x')) = (of_nat (advance_stored q c) :: 32 word)"
    by (rule arg_cong)
  then have st: "0xfffffffe - x' = of_nat (advance_stored q c)"
    by (simp only: of_nat_unat ucast_id)
  show "unat (mwc_current_cycle (mwc_next_random s)) = cur" by (simp add: nx cyc)
  show "unat (mwc_carry (mwc_next_random s)) = advance_carry q c" by (simp add: nx c')
  show "mwc_q (mwc_next_random s) = (mwc_q s)[cur := of_nat (advance_stored q c)]"
    by (simp add: nx cyc st)
  show "mwc_initial_q (mwc_next_random s) = mwc_initial_q s" by (simp add: nx)
  show "mwc_initial_carry (mwc_next_random s) = mwc_initial_carry s" by (simp add: nx)
qed

lemma mwc_copy_loop:
  "n \<le> length (mwc_q st) \<Longrightarrow> n \<le> length (mwc_initial_q st) \<Longrightarrow>
   fold (\<lambda>i st. st\<lparr>mwc_q := (mwc_q st)[i := mwc_initial_q st ! i]\<rparr>) [0..<n] st
     = st\<lparr>mwc_q := take n (mwc_initial_q st) @ drop n (mwc_q st)\<rparr>"
proof (induction n)
  case 0
  then show ?case by simp
next
  case (Suc n)
  have "(take n (mwc_initial_q st) @ drop n (mwc_q st))[n := mwc_initial_q st ! n]
          = take (Suc n) (mwc_initial_q st) @ drop (Suc n) (mwc_q st)"
    using Suc.prems
    by (simp add: list_update_append take_Suc_conv_app_nth upd_conv_take_nth_drop)
  then show ?case using Suc by simp
qed

lemma mwc_init_eq:
  assumes "length (mwc_q r) = MWC_CYCLE" and "length (mwc_initial_q r) = MWC_CYCLE"
  shows "mwc_init r = r\<lparr>mwc_carry := mwc_initial_carry r,
                         mwc_current_cycle := of_nat (MWC_CYCLE - 1),
                         mwc_q := mwc_initial_q r\<rparr>"
  using assms by (simp add: mwc_init_def mwc_copy_loop)

lemma mwc_fill_loop:
  "n \<le> length (mwc_q st) \<Longrightarrow> n \<le> length (mwc_initial_q st) \<Longrightarrow>
   fold (\<lambda>i (st, j). (st\<lparr>mwc_q := (mwc_q st)[i := rand32 j],
                           mwc_initial_q := (mwc_initial_q st)[i := rand32 j]\<rparr>, Suc j))
        [0..<n] (st, k)
     = (st\<lparr>mwc_q := map rand32 [k..<k + n] @ drop n (mwc_q st),
            mwc_initial_q := map rand32 [k..<k + n] @ drop n (mwc_initial_q st)\<rparr>, k + n)"
proof (induction n)
  case 0
  then show ?case by simp
next
  case (Suc n)
  have "(map rand32 [k..<k + n] @ drop n xs)[n := rand32 (k + n)]
          = map rand32 [k..<k + Suc n] @ drop (Suc n) xs" if "Suc n \<le> length xs" for xs
    using that by (simp add: list_update_append upd_conv_take_nth_drop)
  then show ?case using Suc by simp
qed

lemma mwc_create_eq:
  assumes "mwc_initial_c rand32 k = Some (c, k')"
  shows "mwc_create rand32 k
           = Some (\<lparr>mwc_q = map rand32 [k'..<k' + MWC_CYCLE], mwc_carry = c,
                    mwc_current_cycle = of_nat (MWC_CYCLE - 1), mwc_initial_carry = c,
                    mwc_initial_q = map rand32 [k'..<k' + MWC_CYCLE]\<rparr>, k' + MWC_CYCLE)"
  using assms by (simp add: mwc_create_def mwc_fill_loop)

lemma mwc_initial_c_below:
  "mwc_initial_c rand32 k = Some r \<Longrightarrow> fst r < MWC_C_MAX"
proof (erule mwc_initial_c.raw_induct[where P = "\<lambda>rand32 k r. fst r < MWC_C_MAX", rotated])
  fix f :: "(nat \<Rightarrow> 32 word) \<Rightarrow> nat \<Rightarrow> (32 word \<times> nat) option" and rand32 k r
  assume "\<And>k b y. f k b = Some y \<Longrightarrow> fst y < MWC_C_MAX"
    and "(if MWC_C_MAX \<le> rand32 k then f rand32 (Suc k) else Some (rand32 k, Suc k)) = Some r"
  then show "fst r < MWC_C_MAX" by (auto split: if_splits)
qed

lemma mwc_create_Some:
  assumes "mwc_create rand32 k = Some (s0, k')"
  shows "length (mwc_q s0) = MWC_CYCLE" and "length (mwc_initial_q s0) = MWC_CYCLE"
    and "mwc_carry s0 < MWC_C_MAX" and "mwc_initial_carry s0 = mwc_carry s0"
    and "mwc_initial_q s0 = mwc_q s0" and "mwc_current_cycle s0 = of_nat (MWC_CYCLE - 1)"
proof -
  from assms obtain c k1 where ic: "mwc_initial_c rand32 k = Some (c, k1)"
    by (auto simp: mwc_create_def split: option.splits)
  from mwc_initial_c_below[OF ic] have c: "c < MWC_C_MAX" by simp
  from assms mwc_create_eq[OF ic]
  have s0: "s0 = \<lparr>mwc_q = map rand32 [k1..<k1 + MWC_CYCLE], mwc_carry = c,
                    mwc_current_cycle = of_nat (MWC_CYCLE - 1), mwc_initial_carry = c,
                    mwc_initial_q = map rand32 [k1..<k1 + MWC_CYCLE]\<rparr>" by auto
  show "length (mwc_q s0) = MWC_CYCLE" "length (mwc_initial_q s0) = MWC_CYCLE"
    "mwc_carry s0 < MWC_C_MAX" "mwc_initial_carry s0 = mwc_carry s0"
    "mwc_initial_q s0 = mwc_q s0" "mwc_current_cycle s0 = of_nat (MWC_CYCLE - 1)"
    using c by (simp_all add: s0)
qed

lemma mwc_create_zero: "\<exists>s0 k'. mwc_create (\<lambda>_. 0) 0 = Some (s0, k')"
proof -
  have "mwc_initial_c (\<lambda>_. 0) 0 = Some (0, Suc 0)"
    by (subst mwc_initial_c.simps) (simp add: MWC_C_MAX_def)
  from mwc_create_eq[OF this] show ?thesis by blast
qed

lemma mwc_next_random_carry_le: "mwc_carry (mwc_next_random s) \<le> 18783"
proof -
  let ?q = "unat (mwc_q s ! advance_cursor (unat (mwc_current_cycle s)))"
  let ?c = "unat (mwc_carry s)"
  have "?q < 2 ^ 32" "?c < 2 ^ 32"
    using unsigned_less[of "mwc_q s ! advance_cursor (unat (mwc_current_cycle s))"]
      unsigned_less[of "mwc_carry s"] by simp_all
  from advance_t_div_le[OF this] have "advance_carry ?q ?c \<le> 18783"
    by (simp add: advance_carry_def)
  then have "unat (mwc_carry (mwc_next_random s)) \<le> 18783"
    by (simp only: mwc_next_random_step(2))
  then show ?thesis by (simp add: word_le_nat_alt)
qed

lemma mwc_next_random_length: "length (mwc_q (mwc_next_random s)) = length (mwc_q s)"
  by (simp add: mwc_next_random_step(3))

lemma mwc_run_inv:
  assumes "length (mwc_q s) = MWC_CYCLE" and "length (mwc_initial_q s) = MWC_CYCLE"
    and "mwc_carry s < MWC_C_MAX" and "mwc_initial_carry s < MWC_C_MAX"
  shows "length (mwc_q (mwc_run s ops)) = MWC_CYCLE \<and>
         mwc_initial_q (mwc_run s ops) = mwc_initial_q s \<and>
         mwc_initial_carry (mwc_run s ops) = mwc_initial_carry s \<and>
         mwc_carry (mwc_run s ops) < MWC_C_MAX"
  using assms
proof (induction s ops rule: mwc_run.induct)
  case (1 s)
  then show ?case by simp
next
  case (2 s ops)
  have "(18783 :: 32 word) < MWC_C_MAX" by (simp add: MWC_C_MAX_def)
  with mwc_next_random_carry_le[of s] have "mwc_carry (mwc_next_random s) < MWC_C_MAX"
    by (rule le_less_trans)
  with 2 show ?case by (simp add: mwc_next_random_length mwc_next_random_step(4,5))
next
  case (3 s ops)
  then show ?case by (simp add: mwc_init_eq)
qed

lemma advance_cursor_less: "advance_cursor n < MWC_CYCLE"
  by (simp add: advance_cursor_def MWC_CYCLE_def)

lemma advance_stored_less: "advance_stored q c < 2 ^ 32"
  by (simp add: advance_stored_def Let_def)

text \<open>
  Claim C4. On a generator whose table has its \<open>MWC_CYCLE\<close> entries, one call of
  \<open>mwc_next_random\<close> moves the cursor to \<open>(cursor + 1) mod 4096\<close>, forms
  \<open>t = 18782 * Q[cursor'] + carry\<close> without overflow in 64 bits, leaves the carry \<open>t >> 32\<close>
  and stores \<open>0xFFFFFFFE - x\<close> at the new cursor, where \<open>x = low32(t) + carry'\<close> in 32 bits and
  both \<open>x\<close> and the carry are incremented when \<open>x\<close> is below the carry; every other entry of the
  table is unchanged, and \<open>mwc_read_random\<close> then returns the stored entry.
\<close>

theorem mwc_next_random_exact:
  assumes "length (mwc_q s) = MWC_CYCLE"
  shows "advance_cursor (unat (mwc_current_cycle s)) < MWC_CYCLE \<and>
         advance_t (unat (mwc_q s ! advance_cursor (unat (mwc_current_cycle s))))
                   (unat (mwc_carry s)) < 2 ^ 64 \<and>
         unat (mwc_current_cycle (mwc_next_random s)) = advance_cursor (unat (mwc_current_cycle s)) \<and>
         unat (mwc_carry (mwc_next_random s))
           = advance_carry (unat (mwc_q s ! advance_cursor (unat (mwc_current_cycle s))))
                           (unat (mwc_carry s)) \<and>
         mwc_q (mwc_next_random s)
           = (mwc_q s)[advance_cursor (unat (mwc_current_cycle s)) :=
                of_nat (advance_stored
                          (unat (mwc_q s ! advance_cursor (unat (mwc_current_cycle s))))
                          (unat (mwc_carry s)))] \<and>
         unat (mwc_read_random (mwc_next_random s))
           = advance_stored (unat (mwc_q s ! advance_cursor (unat (mwc_current_cycle s))))
                            (unat (mwc_carry s))"
proof -
  let ?cur = "advance_cursor (unat (mwc_current_cycle s))"
  let ?q = "unat (mwc_q s ! ?cur)"
  let ?c = "unat (mwc_carry s)"
  have cur: "?cur < MWC_CYCLE" by (rule advance_cursor_less)
  have "?q < 2 ^ 32" "?c < 2 ^ 32"
    using unsigned_less[of "mwc_q s ! ?cur"] unsigned_less[of "mwc_carry s"] by simp_all
  then have t: "advance_t ?q ?c < 2 ^ 64" by (simp add: advance_t_def)
  have "mwc_read_random (mwc_next_random s) = mwc_q (mwc_next_random s) ! ?cur"
    by (simp add: mwc_read_random_def mwc_next_random_step(1))
  also have "\<dots> = of_nat (advance_stored ?q ?c)"
    using cur assms by (simp add: mwc_next_random_step(3))
  finally have "unat (mwc_read_random (mwc_next_random s)) = advance_stored ?q ?c"
    using advance_stored_less[of ?q ?c] by (simp add: unat_of_nat)
  with cur t show ?thesis
    by (simp add: mwc_next_random_step(1,2) mwc_next_random_step(3)[symmetric])
qed

theorem mwc_next_random_exact_witness:
  "length (mwc_q \<lparr>mwc_q = replicate 4096 1, mwc_carry = 5, mwc_current_cycle = 4095,
                   mwc_initial_carry = 5, mwc_initial_q = replicate 4096 1\<rparr>) = MWC_CYCLE \<and>
   unat (mwc_read_random (mwc_next_random
           \<lparr>mwc_q = replicate 4096 1, mwc_carry = 5, mwc_current_cycle = 4095,
            mwc_initial_carry = 5, mwc_initial_q = replicate 4096 1\<rparr>)) = 4294948507"
proof -
  let ?s = "\<lparr>mwc_q = replicate 4096 1, mwc_carry = 5, mwc_current_cycle = 4095,
             mwc_initial_carry = 5, mwc_initial_q = replicate 4096 (1 :: 32 word)\<rparr>"
  have h: "length (mwc_q ?s) = MWC_CYCLE" by (simp add: MWC_CYCLE_def)
  have "advance_cursor (unat (4095 :: 32 word)) = 0" by (simp add: advance_cursor_def)
  moreover have "advance_stored 1 5 = 4294948507"
    by (simp add: advance_stored_def advance_x_def advance_t_def)
  ultimately show ?thesis using mwc_next_random_exact[OF h] h by simp
qed

text \<open>
  Claim C5. For a generator made by \<open>mwc_create\<close> and any sequence of \<open>mwc_next_random\<close> and
  \<open>mwc_init\<close> calls on it, \<open>mwc_init\<close> followed by \<open>N\<close> calls of \<open>mwc_next_random\<close> reads the
  same value as the same calls on the created generator: \<open>mwc_init\<close> restores the recorded
  table, carry and cursor, and the recorded table and carry never change.
\<close>

theorem mwc_replay:
  assumes "mwc_create rand32 k = Some (s0, k')"
  shows "mwc_read_random ((mwc_next_random ^^ N) (mwc_init (mwc_run s0 ops)))
           = mwc_read_random ((mwc_next_random ^^ N) (mwc_init s0)) \<and>
         mwc_q (mwc_init (mwc_run s0 ops)) = mwc_initial_q s0 \<and>
         mwc_carry (mwc_init (mwc_run s0 ops)) = mwc_initial_carry s0 \<and>
         mwc_current_cycle (mwc_init (mwc_run s0 ops)) = of_nat (MWC_CYCLE - 1) \<and>
         mwc_initial_q (mwc_run s0 ops) = mwc_initial_q s0 \<and>
         mwc_initial_carry (mwc_run s0 ops) = mwc_initial_carry s0"
proof -
  note c = mwc_create_Some[OF assms]
  have "mwc_initial_carry s0 < MWC_C_MAX" using c(3,4) by simp
  from mwc_run_inv[OF c(1,2,3) this, of ops]
  have inv: "length (mwc_q (mwc_run s0 ops)) = MWC_CYCLE"
    "mwc_initial_q (mwc_run s0 ops) = mwc_initial_q s0"
    "mwc_initial_carry (mwc_run s0 ops) = mwc_initial_carry s0" by simp_all
  have li: "length (mwc_initial_q (mwc_run s0 ops)) = MWC_CYCLE" using inv(2) c(2) by simp
  have "mwc_init (mwc_run s0 ops) = mwc_init s0"
    using inv(2,3) by (simp add: mwc_init_eq[OF inv(1) li] mwc_init_eq[OF c(1,2)])
  then show ?thesis using inv(2,3) by (simp add: mwc_init_eq[OF c(1,2)])
qed

theorem mwc_replay_witness:
  "\<exists>s0 k'. mwc_create (\<lambda>_. 0) 0 = Some (s0, k') \<and>
     mwc_read_random ((mwc_next_random ^^ 2) (mwc_init (mwc_run s0 [Advance, Advance, Reset, Advance])))
       = mwc_read_random ((mwc_next_random ^^ 2) (mwc_init s0))"
proof -
  obtain s0 k' where c: "mwc_create (\<lambda>_. 0) 0 = Some (s0, k')" using mwc_create_zero by blast
  from mwc_replay[OF c, of 2 "[Advance, Advance, Reset, Advance]"] c show ?thesis by blast
qed

text \<open>
  Claim C9. For a generator made by \<open>mwc_create\<close>, the carry is below \<open>MWC_C_MAX\<close> after any
  sequence of \<open>mwc_next_random\<close> and \<open>mwc_init\<close> calls: the created carry is below \<open>MWC_C_MAX\<close>,
  \<open>mwc_init\<close> puts the created carry back, and the carry left by \<open>mwc_next_random\<close> is at most
  18783.
\<close>

theorem mwc_carry_below_max:
  assumes "mwc_create rand32 k = Some (s0, k')"
  shows "mwc_carry (mwc_run s0 ops) < MWC_C_MAX \<and>
         mwc_carry s0 < MWC_C_MAX \<and>
         mwc_carry (mwc_init (mwc_run s0 ops)) = mwc_carry s0 \<and>
         mwc_carry (mwc_next_random (mwc_run s0 ops)) \<le> 18783"
proof -
  note c = mwc_create_Some[OF assms]
  have "mwc_initial_carry s0 < MWC_C_MAX" using c(3,4) by simp
  from mwc_run_inv[OF c(1,2,3) this, of ops]
  have inv: "length (mwc_q (mwc_run s0 ops)) = MWC_CYCLE"
    "mwc_initial_q (mwc_run s0 ops) = mwc_initial_q s0"
    "mwc_initial_carry (mwc_run s0 ops) = mwc_initial_carry s0"
    "mwc_carry (mwc_run s0 ops) < MWC_C_MAX" by simp_all
  have li: "length (mwc_initial_q (mwc_run s0 ops)) = MWC_CYCLE" using inv(2) c(2) by simp
  have "mwc_carry (mwc_init (mwc_run s0 ops)) = mwc_carry s0"
    using inv(3) c(4) by (simp add: mwc_init_eq[OF inv(1) li])
  then show ?thesis using inv(4) c(3) mwc_next_random_carry_le[of "mwc_run s0 ops"] by simp
qed

theorem mwc_carry_below_max_witness:
  "\<exists>s0 k'. mwc_create (\<lambda>_. 0) 0 = Some (s0, k') \<and>
     mwc_carry (mwc_run s0 [Advance, Reset, Advance, Advance]) < MWC_C_MAX"
proof -
  obtain s0 k' where c: "mwc_create (\<lambda>_. 0) 0 = Some (s0, k')" using mwc_create_zero by blast
  from mwc_carry_below_max[OF c, of "[Advance, Reset, Advance, Advance]"] c show ?thesis by blast
qed

section \<open>The pure API\<close>

lemma copy_chars_append:
  "length pre = off \<Longrightarrow> n \<le> length src \<Longrightarrow> n \<le> length rest \<Longrightarrow>
   copy_chars n off src (pre @ rest) = pre @ take n src @ drop n rest"
proof (induction n)
  case 0
  then show ?case by (simp add: copy_chars_def)
next
  case (Suc n)
  have "(pre @ take n src @ drop n rest)[off + n := src ! n]
          = pre @ take (Suc n) src @ drop (Suc n) rest"
    using Suc.prems
    by (simp add: list_update_append take_Suc_conv_app_nth upd_conv_take_nth_drop)
  then show ?case using Suc by (simp add: copy_chars_def)
qed

lemma take_encode_padded [simp]: "take w (encode_padded n w pc @ rest) = encode_padded n w pc"
  by (simp add: length_encode_padded)

lemma unat_ucast_32_64: "unat (ucast (x :: 32 word) :: 64 word) = unat x"
proof -
  have "unat x < 2 ^ 32" using unsigned_less[of x] by simp
  then show ?thesis by (simp add: unsigned_ucast_eq take_bit_eq_mod)
qed

lemma copy_chars_eq:
  assumes "off + n \<le> length dst" and "n \<le> length src"
  shows "copy_chars n off src dst = take off dst @ take n src @ drop (off + n) dst"
proof -
  have "copy_chars n off src (take off dst @ drop off dst)
          = take off dst @ take n src @ drop n (drop off dst)"
    using assms by (intro copy_chars_append) simp_all
  then show ?thesis by (simp add: add.commute)
qed

lemma cuid_gen_value_string_sized:
  assumes "cuid_sized cid"
  shows "\<exists>cid'. cuid_gen_value_string cid = Inr cid' \<and> cuid_sized cid' \<and>
           cuid_value cid'
             = CHR ''c'' # take 6 (cuid_timestamp cid) @
               encode_padded (unat (cuid_read_counter (cuid_counter cid))) 4 (CHR ''0'') @
               take 4 (cuid_fingerprint cid) @
               encode_padded (unat (mwc_read_random (cuid_rnd1 cid))) 4 (CHR ''0'') @
               encode_padded (unat (mwc_read_random (cuid_rnd2 cid))) 4 (CHR ''0'') @
               drop 23 (cuid_value cid) \<and>
           cuid_fingerprint cid' = cuid_fingerprint cid \<and>
           cuid_counter cid' = cuid_counter cid \<and>
           cuid_rnd1 cid' = cuid_rnd1 cid \<and>
           cuid_rnd2 cid' = cuid_rnd2 cid \<and>
           cuid_timestamp cid' = cuid_timestamp cid"
proof -
  have sz: "length (cuid_fingerprint cid) = 16" "length (cuid_counter_str cid) = 16"
    "length (cuid_rnd1_str cid) = 16" "length (cuid_rnd2_str cid) = 16"
    "length (cuid_timestamp cid) = 16" "length (cuid_value cid) = 24"
    using assms by (simp_all add: cuid_sized_def CUID_BASE36_RESULT_SIZE_def CUID_SIZE_def)
  have room: "\<exists>tail. cuid_base36_pad (ucast x) buf 4 (CHR ''0'')
                  = Inr (encode_padded (unat x) 4 (CHR ''0'') @ NUL # tail, 4) \<and> length tail = 11"
    if "length buf = 16" for x :: "32 word" and buf
    using cuid_base36_pad_room[of 4 buf "ucast x" "CHR ''0''"] that
    by (simp add: unat_ucast_32_64)
  obtain tc where pc:
    "cuid_base36_pad (ucast (cuid_read_counter (cuid_counter cid))) (cuid_counter_str cid) 4 (CHR ''0'')
     = Inr (encode_padded (unat (cuid_read_counter (cuid_counter cid))) 4 (CHR ''0'') @ NUL # tc, 4)"
    and lc: "length tc = 11"
    using room[OF sz(2)] by blast
  obtain t1 where p1:
    "cuid_base36_pad (ucast (mwc_read_random (cuid_rnd1 cid))) (cuid_rnd1_str cid) 4 (CHR ''0'')
     = Inr (encode_padded (unat (mwc_read_random (cuid_rnd1 cid))) 4 (CHR ''0'') @ NUL # t1, 4)"
    and l1: "length t1 = 11"
    using room[OF sz(3)] by blast
  obtain t2 where p2:
    "cuid_base36_pad (ucast (mwc_read_random (cuid_rnd2 cid))) (cuid_rnd2_str cid) 4 (CHR ''0'')
     = Inr (encode_padded (unat (mwc_read_random (cuid_rnd2 cid))) 4 (CHR ''0'') @ NUL # t2, 4)"
    and l2: "length t2 = 11"
    using room[OF sz(4)] by blast
  have v0: "(cuid_value cid)[0 := CHR ''c''] = CHR ''c'' # drop 1 (cuid_value cid)"
    using sz(6) by (cases "cuid_value cid") simp_all
  have mw: "length (mwc_q (cuid_rnd1 cid)) = MWC_CYCLE"
    "length (mwc_initial_q (cuid_rnd1 cid)) = MWC_CYCLE"
    "length (mwc_q (cuid_rnd2 cid)) = MWC_CYCLE"
    "length (mwc_initial_q (cuid_rnd2 cid)) = MWC_CYCLE"
    using assms by (simp_all add: cuid_sized_def)
  show ?thesis
    unfolding cuid_gen_value_string_def Let_def
    using sz lc l1 l2 mw
    by (simp add: pc p1 p2 v0 copy_chars_eq length_encode_padded cuid_sized_def
        CUID_BASE36_RESULT_SIZE_def CUID_SIZE_def CUID_BLOCK_LENGTH_def CUID_TIMESTAMP_LENGTH_def)
qed

lemma clear_loop:
  "n \<le> length v \<Longrightarrow> fold (\<lambda>i v. v[i := x]) [0..<n] v = replicate n x @ drop n v"
proof (induction n)
  case 0
  then show ?case by simp
next
  case (Suc n)
  have "(replicate n x @ drop n v)[n := x] = replicate (Suc n) x @ drop (Suc n) v"
    using Suc.prems
    by (simp add: list_update_append upd_conv_take_nth_drop replicate_append_same)
  then show ?case using Suc by simp
qed

lemma mwc_init_sized:
  assumes "length (mwc_q r) = MWC_CYCLE" and "length (mwc_initial_q r) = MWC_CYCLE"
  shows "length (mwc_q (mwc_init r)) = MWC_CYCLE" and "length (mwc_initial_q (mwc_init r)) = MWC_CYCLE"
  using assms by (simp_all add: mwc_init_eq)

lemma mwc_next_random_sized:
  assumes "length (mwc_q r) = MWC_CYCLE" and "length (mwc_initial_q r) = MWC_CYCLE"
  shows "length (mwc_q (mwc_next_random r)) = MWC_CYCLE"
    and "length (mwc_initial_q (mwc_next_random r)) = MWC_CYCLE"
  using assms by (simp_all add: mwc_next_random_step(3,4))

lemma timestamp_block:
  assumes "length buf = 16"
  shows "\<exists>tail. cuid_base36_pad timestamp buf 6 (CHR ''0'')
                  = Inr (encode_padded (unat timestamp) 6 (CHR ''0'') @ NUL # tail, 6) \<and>
               length tail = 9"
  using cuid_base36_pad_room[of 6 buf timestamp "CHR ''0''"] assms by simp

lemma cuid_init_sized:
  assumes "cuid_sized cid"
  shows "\<exists>cid'. cuid_init cid timestamp = Inr cid' \<and> cuid_sized cid' \<and>
           cuid_value cid'
             = CHR ''c'' # encode_padded (unat timestamp) 6 (CHR ''0'') @
               encode_padded (unat (cuid_read_counter (cuid_counter cid'))) 4 (CHR ''0'') @
               take 4 (cuid_fingerprint cid) @
               encode_padded (unat (mwc_read_random (cuid_rnd1 cid'))) 4 (CHR ''0'') @
               encode_padded (unat (mwc_read_random (cuid_rnd2 cid'))) 4 (CHR ''0'') @ [NUL] \<and>
           cuid_fingerprint cid' = cuid_fingerprint cid \<and>
           cuid_counter cid' = cuid_init_counter (cuid_counter cid) \<and>
           cuid_rnd1 cid' = mwc_init (cuid_rnd1 cid) \<and>
           cuid_rnd2 cid' = mwc_init (cuid_rnd2 cid)"
proof -
  have sz: "length (cuid_fingerprint cid) = 16" "length (cuid_counter_str cid) = 16"
    "length (cuid_rnd1_str cid) = 16" "length (cuid_rnd2_str cid) = 16"
    "length (cuid_timestamp cid) = 16" "length (cuid_value cid) = 24"
    using assms by (simp_all add: cuid_sized_def CUID_BASE36_RESULT_SIZE_def CUID_SIZE_def)
  have mw: "length (mwc_q (cuid_rnd1 cid)) = MWC_CYCLE"
    "length (mwc_initial_q (cuid_rnd1 cid)) = MWC_CYCLE"
    "length (mwc_q (cuid_rnd2 cid)) = MWC_CYCLE"
    "length (mwc_initial_q (cuid_rnd2 cid)) = MWC_CYCLE"
    using assms by (simp_all add: cuid_sized_def)
  obtain tt where pt:
    "cuid_base36_pad timestamp (cuid_timestamp cid) 6 (CHR ''0'')
       = Inr (encode_padded (unat timestamp) 6 (CHR ''0'') @ NUL # tt, 6)"
    and lt: "length tt = 9"
    using timestamp_block[OF sz(5)] by blast
  let ?mid = "cid\<lparr>cuid_counter := cuid_init_counter (cuid_counter cid),
                   cuid_rnd1 := mwc_init (cuid_rnd1 cid),
                   cuid_rnd2 := mwc_init (cuid_rnd2 cid),
                   cuid_timestamp := encode_padded (unat timestamp) 6 (CHR ''0'') @ NUL # tt,
                   cuid_value := fold (\<lambda>i v. v[i := NUL]) [0..<CUID_SIZE] (cuid_value cid)\<rparr>"
  have init: "cuid_init cid timestamp = cuid_gen_value_string ?mid"
    by (simp add: cuid_init_def Let_def pt CUID_TIMESTAMP_LENGTH_def)
  have val: "cuid_value ?mid = replicate 24 NUL"
    using sz(6) by (simp add: clear_loop CUID_SIZE_def)
  have "cuid_sized ?mid"
    using sz mw lt val
    by (simp add: cuid_sized_def mwc_init_sized length_encode_padded CUID_BASE36_RESULT_SIZE_def
        CUID_SIZE_def)
  from cuid_gen_value_string_sized[OF this] obtain cid' where
    g: "cuid_gen_value_string ?mid = Inr cid'" "cuid_sized cid'"
    "cuid_value cid'
       = CHR ''c'' # take 6 (cuid_timestamp ?mid) @
         encode_padded (unat (cuid_read_counter (cuid_counter ?mid))) 4 (CHR ''0'') @
         take 4 (cuid_fingerprint ?mid) @
         encode_padded (unat (mwc_read_random (cuid_rnd1 ?mid))) 4 (CHR ''0'') @
         encode_padded (unat (mwc_read_random (cuid_rnd2 ?mid))) 4 (CHR ''0'') @
         drop 23 (cuid_value ?mid)"
    "cuid_fingerprint cid' = cuid_fingerprint ?mid" "cuid_counter cid' = cuid_counter ?mid"
    "cuid_rnd1 cid' = cuid_rnd1 ?mid" "cuid_rnd2 cid' = cuid_rnd2 ?mid"
    by blast
  have d: "drop 23 (cuid_value ?mid) = [NUL]" by (simp only: val) simp
  show ?thesis
    using g(1,2) by (simp add: init g(3)[unfolded d] g(4,5,6,7) length_encode_padded)
qed

lemma cuid_next_sized:
  assumes "cuid_sized cid"
  shows "\<exists>cid'. cuid_next cid timestamp = Inr cid' \<and> cuid_sized cid' \<and>
           cuid_value cid'
             = CHR ''c'' # encode_padded (unat timestamp) 6 (CHR ''0'') @
               encode_padded (unat (cuid_read_counter (cuid_counter cid'))) 4 (CHR ''0'') @
               take 4 (cuid_fingerprint cid) @
               encode_padded (unat (mwc_read_random (cuid_rnd1 cid'))) 4 (CHR ''0'') @
               encode_padded (unat (mwc_read_random (cuid_rnd2 cid'))) 4 (CHR ''0'') @
               drop 23 (cuid_value cid) \<and>
           cuid_fingerprint cid' = cuid_fingerprint cid \<and>
           cuid_counter cid' = cuid_inc_counter (cuid_counter cid) \<and>
           cuid_rnd1 cid' = mwc_next_random (cuid_rnd1 cid) \<and>
           cuid_rnd2 cid' = mwc_next_random (cuid_rnd2 cid)"
proof -
  have sz: "length (cuid_fingerprint cid) = 16" "length (cuid_counter_str cid) = 16"
    "length (cuid_rnd1_str cid) = 16" "length (cuid_rnd2_str cid) = 16"
    "length (cuid_timestamp cid) = 16" "length (cuid_value cid) = 24"
    using assms by (simp_all add: cuid_sized_def CUID_BASE36_RESULT_SIZE_def CUID_SIZE_def)
  have mw: "length (mwc_q (cuid_rnd1 cid)) = MWC_CYCLE"
    "length (mwc_initial_q (cuid_rnd1 cid)) = MWC_CYCLE"
    "length (mwc_q (cuid_rnd2 cid)) = MWC_CYCLE"
    "length (mwc_initial_q (cuid_rnd2 cid)) = MWC_CYCLE"
    using assms by (simp_all add: cuid_sized_def)
  obtain tt where pt:
    "cuid_base36_pad timestamp (cuid_timestamp cid) 6 (CHR ''0'')
       = Inr (encode_padded (unat timestamp) 6 (CHR ''0'') @ NUL # tt, 6)"
    and lt: "length tt = 9"
    using timestamp_block[OF sz(5)] by blast
  let ?mid = "cid\<lparr>cuid_counter := cuid_inc_counter (cuid_counter cid),
                   cuid_rnd1 := mwc_next_random (cuid_rnd1 cid),
                   cuid_rnd2 := mwc_next_random (cuid_rnd2 cid),
                   cuid_timestamp := encode_padded (unat timestamp) 6 (CHR ''0'') @ NUL # tt\<rparr>"
  have nxt: "cuid_next cid timestamp = cuid_gen_value_string ?mid"
    by (simp add: cuid_next_def Let_def pt CUID_TIMESTAMP_LENGTH_def)
  have "cuid_sized ?mid"
    using sz mw lt
    by (simp add: cuid_sized_def mwc_next_random_sized length_encode_padded
        CUID_BASE36_RESULT_SIZE_def CUID_SIZE_def)
  from cuid_gen_value_string_sized[OF this] obtain cid' where
    g: "cuid_gen_value_string ?mid = Inr cid'" "cuid_sized cid'"
    "cuid_value cid'
       = CHR ''c'' # take 6 (cuid_timestamp ?mid) @
         encode_padded (unat (cuid_read_counter (cuid_counter ?mid))) 4 (CHR ''0'') @
         take 4 (cuid_fingerprint ?mid) @
         encode_padded (unat (mwc_read_random (cuid_rnd1 ?mid))) 4 (CHR ''0'') @
         encode_padded (unat (mwc_read_random (cuid_rnd2 ?mid))) 4 (CHR ''0'') @
         drop 23 (cuid_value ?mid)"
    "cuid_fingerprint cid' = cuid_fingerprint ?mid" "cuid_counter cid' = cuid_counter ?mid"
    "cuid_rnd1 cid' = cuid_rnd1 ?mid" "cuid_rnd2 cid' = cuid_rnd2 ?mid"
    by blast
  show ?thesis
    using g(1,2) by (simp add: nxt g(3,4,5,6,7) length_encode_padded)
qed

lemma cuid_read_sized:
  assumes "length (cuid_value cid) = CUID_SIZE" and "CUID_SIZE \<le> length destination"
  shows "cuid_read cid destination = Inr (cuid_value cid @ drop CUID_SIZE destination)"
proof -
  let ?v = "cuid_value cid"
  have "\<exists>d. for_loop 0 CUID_SIZE (\<lambda>i d. buf_write d i (?v ! i)) destination = Inr d
          \<and> d = take CUID_SIZE ?v @ drop CUID_SIZE destination"
  proof (rule for_loop_inv[where I = "\<lambda>j d. d = take j ?v @ drop j destination"])
    show "destination = take 0 ?v @ drop 0 destination" by simp
    show "0 \<le> CUID_SIZE" by simp
    fix j d
    assume j: "0 \<le> j" "j < CUID_SIZE" and d: "d = take j ?v @ drop j destination"
    have "d[j := ?v ! j] = take (Suc j) ?v @ drop (Suc j) destination"
      using j assms d
      by (simp add: list_update_append take_Suc_conv_app_nth upd_conv_take_nth_drop)
    moreover have "j < length d" using j assms d by simp
    ultimately show "\<exists>t'. buf_write d j (?v ! j) = Inr t'
                      \<and> t' = take (Suc j) ?v @ drop (Suc j) destination"
      by (simp add: buf_write_def)
  qed
  then show ?thesis using assms by (simp add: cuid_read_def)
qed

lemma for_loop_partial:
  assumes "for_loop i hi body s = Inr t" and "I i s" and "i \<le> hi"
    and "\<And>j u u'. i \<le> j \<Longrightarrow> j < hi \<Longrightarrow> I j u \<Longrightarrow> body j u = Inr u' \<Longrightarrow> I (Suc j) u'"
  shows "I hi t"
  using assms
proof (induction i hi body s rule: for_loop.induct)
  case (1 i hi body s)
  show ?case
  proof (cases "i < hi")
    case False
    with "1.prems"(1,2,3) show ?thesis by (simp add: for_loop.simps)
  next
    case True
    with "1.prems"(1) obtain s' where s': "body i s = Inr s'" "for_loop (Suc i) hi body s' = Inr t"
      by (subst (asm) for_loop.simps) (auto split: sum.splits)
    have "I (Suc i) s'" using "1.prems"(4)[OF le_refl True "1.prems"(2) s'(1)] .
    moreover have "Suc i \<le> hi" using True by simp
    moreover have "\<And>j u u'. Suc i \<le> j \<Longrightarrow> j < hi \<Longrightarrow> I j u \<Longrightarrow> body j u = Inr u' \<Longrightarrow> I (Suc j) u'"
      using "1.prems"(4) by simp
    ultimately show ?thesis using "1.IH"[OF True s'(1) s'(2)] by blast
  qed
qed

lemma cuid_create_Some:
  assumes "cuid_create fingerprint rand32 k = Some (Inr (cid0, k'))"
  shows "cuid_sized cid0" and "take 5 (cuid_fingerprint cid0) = take 5 fingerprint"
    and "5 \<le> length fingerprint" and "cuid_value cid0 = replicate CUID_SIZE NUL"
    and "cuid_counter cid0 = cuid_create_counter"
proof -
  from assms obtain rnd1 k1 rnd2 k2 where
    r1: "mwc_create rand32 k = Some (rnd1, k1)" and r2: "mwc_create rand32 k1 = Some (rnd2, k2)"
    by (auto simp: cuid_create_def split: option.splits)
  let ?base = "\<lparr>cuid_fingerprint = replicate CUID_BASE36_RESULT_SIZE NUL,
                 cuid_counter = cuid_create_counter,
                 cuid_counter_str = replicate CUID_BASE36_RESULT_SIZE NUL,
                 cuid_rnd1 = rnd1, cuid_rnd2 = rnd2,
                 cuid_rnd1_str = replicate CUID_BASE36_RESULT_SIZE NUL,
                 cuid_rnd2_str = replicate CUID_BASE36_RESULT_SIZE NUL,
                 cuid_value = replicate CUID_SIZE NUL,
                 cuid_timestamp = replicate CUID_BASE36_RESULT_SIZE NUL\<rparr>"
  let ?body = "\<lambda>i cid. case buf_read fingerprint i of
                         Inl e \<Rightarrow> Inl e
                       | Inr c \<Rightarrow> Inr (cid\<lparr>cuid_fingerprint := (cuid_fingerprint cid)[i := c]\<rparr>)"
  let ?I = "\<lambda>j cid. j \<le> length fingerprint \<and>
              cid = ?base\<lparr>cuid_fingerprint := take j fingerprint @ drop j (replicate CUID_BASE36_RESULT_SIZE NUL)\<rparr>"
  from assms r1 r2 have loop: "for_loop 0 CUID_FINGERPRINT_SIZE ?body ?base = Inr cid0"
    by (auto simp: cuid_create_def split: sum.splits)
  have "?I CUID_FINGERPRINT_SIZE cid0"
  proof (rule for_loop_partial[OF loop, where I = ?I])
    show "?I 0 ?base" by simp
    show "0 \<le> CUID_FINGERPRINT_SIZE" by simp
    fix j u u'
    assume j: "0 \<le> j" "j < CUID_FINGERPRINT_SIZE" and I: "?I j u" and b: "?body j u = Inr u'"
    from b have jl: "j < length fingerprint" by (auto simp: buf_read_def split: if_splits)
    have "(take j fingerprint @ drop j (replicate CUID_BASE36_RESULT_SIZE NUL))[j := fingerprint ! j]
            = take (Suc j) fingerprint @ drop (Suc j) (replicate CUID_BASE36_RESULT_SIZE NUL)"
      using j jl
      by (simp add: list_update_append take_Suc_conv_app_nth upd_conv_take_nth_drop
          CUID_FINGERPRINT_SIZE_def CUID_BASE36_RESULT_SIZE_def)
    with I b jl show "?I (Suc j) u'" by (auto simp: buf_read_def)
  qed
  then have l5: "5 \<le> length fingerprint"
    and c0: "cid0 = ?base\<lparr>cuid_fingerprint := take 5 fingerprint @ drop 5 (replicate CUID_BASE36_RESULT_SIZE NUL)\<rparr>"
    by (simp_all add: CUID_FINGERPRINT_SIZE_def)
  note m1 = mwc_create_Some[OF r1] and m2 = mwc_create_Some[OF r2]
  show "5 \<le> length fingerprint" by (rule l5)
  show "cuid_sized cid0"
    using l5 m1(1,2) m2(1,2) by (simp add: c0 cuid_sized_def CUID_BASE36_RESULT_SIZE_def)
  show "take 5 (cuid_fingerprint cid0) = take 5 fingerprint" using l5 by (simp add: c0)
  show "cuid_value cid0 = replicate CUID_SIZE NUL" by (simp add: c0)
  show "cuid_counter cid0 = cuid_create_counter" by (simp add: c0)
qed

lemma mwc_create_zero_at: "\<exists>s0. mwc_create (\<lambda>_. 0) k = Some (s0, Suc k + MWC_CYCLE)"
proof -
  have "mwc_initial_c (\<lambda>_. 0) k = Some (0, Suc k)"
    by (subst mwc_initial_c.simps) (simp add: MWC_C_MAX_def)
  from mwc_create_eq[OF this] show ?thesis by blast
qed

lemma cuid_create_zero:
  assumes "5 \<le> length fingerprint"
  shows "\<exists>cid0 k'. cuid_create fingerprint (\<lambda>_. 0) 0 = Some (Inr (cid0, k'))"
proof -
  obtain rnd1 where r1: "mwc_create (\<lambda>_. 0) 0 = Some (rnd1, Suc 0 + MWC_CYCLE)"
    using mwc_create_zero_at[of 0] by blast
  obtain rnd2 where r2: "mwc_create (\<lambda>_. 0) (Suc 0 + MWC_CYCLE) = Some (rnd2, Suc (Suc 0 + MWC_CYCLE) + MWC_CYCLE)"
    using mwc_create_zero_at[of "Suc 0 + MWC_CYCLE"] by blast
  let ?body = "\<lambda>i cid. case buf_read fingerprint i of
                         Inl e \<Rightarrow> Inl e
                       | Inr c \<Rightarrow> Inr (cid\<lparr>cuid_fingerprint := (cuid_fingerprint cid)[i := c]\<rparr>)"
  have "\<exists>t. for_loop 0 CUID_FINGERPRINT_SIZE ?body s = Inr t \<and> True" for s :: cuid_t
  proof (rule for_loop_inv[where I = "\<lambda>_ _. True"])
    fix j and t :: cuid_t
    assume "j < CUID_FINGERPRINT_SIZE"
    then have "j < length fingerprint" using assms by (simp add: CUID_FINGERPRINT_SIZE_def)
    then show "\<exists>t'. ?body j t = Inr t' \<and> True" by (simp add: buf_read_def)
  qed simp_all
  then obtain t where
    "for_loop 0 CUID_FINGERPRINT_SIZE ?body
       \<lparr>cuid_fingerprint = replicate CUID_BASE36_RESULT_SIZE NUL,
        cuid_counter = cuid_create_counter,
        cuid_counter_str = replicate CUID_BASE36_RESULT_SIZE NUL,
        cuid_rnd1 = rnd1, cuid_rnd2 = rnd2,
        cuid_rnd1_str = replicate CUID_BASE36_RESULT_SIZE NUL,
        cuid_rnd2_str = replicate CUID_BASE36_RESULT_SIZE NUL,
        cuid_value = replicate CUID_SIZE NUL,
        cuid_timestamp = replicate CUID_BASE36_RESULT_SIZE NUL\<rparr> = Inr t"
    by blast
  then show ?thesis using r1 r2 by (simp add: cuid_create_def)
qed

lemma length_cuid_layout:
  "4 \<le> length fingerprint \<Longrightarrow> length (cuid_layout t c fingerprint r1 r2) = 23"
  by (simp add: cuid_layout_def length_encode_padded)

lemma NUL_not_radix: "NUL \<notin> set cuid_radix36_table"
  by (simp add: NUL_def cuid_radix36_table_def)

lemma encode_chars: "set (encode n) \<subseteq> set cuid_radix36_table"
proof (induction n rule: encode.induct)
  case (1 n)
  have len: "length cuid_radix36_table = 36" by (simp add: cuid_radix36_table_def)
  show ?case
  proof (cases "n < 36")
    case True
    then have "cuid_radix36_table ! n \<in> set cuid_radix36_table" using len by (intro nth_mem) simp
    then show ?thesis using True by (subst encode.simps) simp
  next
    case False
    have "cuid_radix36_table ! (n mod 36) \<in> set cuid_radix36_table"
      using len by (intro nth_mem) simp
    then show ?thesis using False "1.IH" by (subst encode.simps) simp
  qed
qed

lemma encode_padded_chars: "set (encode_padded n w (CHR ''0'')) \<subseteq> set cuid_radix36_table"
proof -
  have "CHR ''0'' \<in> set cuid_radix36_table" by (simp add: cuid_radix36_table_def)
  moreover have "set (drop k (encode n)) \<subseteq> set cuid_radix36_table" for k
    using encode_chars[of n] set_drop_subset[of k "encode n"] by blast
  ultimately show ?thesis using encode_chars[of n] by (auto simp: encode_padded_def)
qed

lemma encode_padded_no_NUL: "NUL \<notin> set (encode_padded n w (CHR ''0''))"
  using encode_padded_chars[of n w] NUL_not_radix by blast

lemma cuid_init_layout:
  assumes "cuid_sized cid"
  shows "\<exists>cid'. cuid_init cid timestamp = Inr cid' \<and> cuid_sized cid' \<and>
           cuid_value cid'
             = cuid_layout timestamp (cuid_read_counter (cuid_counter cid')) (cuid_fingerprint cid)
                 (mwc_read_random (cuid_rnd1 cid')) (mwc_read_random (cuid_rnd2 cid')) @ [NUL] \<and>
           cuid_fingerprint cid' = cuid_fingerprint cid \<and>
           cuid_read_counter (cuid_counter cid') = 0 \<and>
           cuid_rnd1 cid' = mwc_init (cuid_rnd1 cid) \<and>
           cuid_rnd2 cid' = mwc_init (cuid_rnd2 cid)"
  using cuid_init_sized[OF assms, of timestamp]
  by (auto simp: cuid_layout_def cuid_init_counter_def cuid_read_counter_def)

lemma cuid_next_layout:
  assumes "cuid_sized cid" and "drop 23 (cuid_value cid) = [NUL]"
  shows "\<exists>cid'. cuid_next cid timestamp = Inr cid' \<and> cuid_sized cid' \<and>
           cuid_value cid'
             = cuid_layout timestamp (cuid_read_counter (cuid_counter cid')) (cuid_fingerprint cid)
                 (mwc_read_random (cuid_rnd1 cid')) (mwc_read_random (cuid_rnd2 cid')) @ [NUL] \<and>
           cuid_fingerprint cid' = cuid_fingerprint cid \<and>
           cuid_read_counter (cuid_counter cid') = cuid_read_counter (cuid_counter cid) + 1 \<and>
           cuid_rnd1 cid' = mwc_next_random (cuid_rnd1 cid) \<and>
           cuid_rnd2 cid' = mwc_next_random (cuid_rnd2 cid)"
  using cuid_next_sized[OF assms(1), of timestamp] assms(2)
  by (auto simp: cuid_layout_def cuid_inc_counter_def cuid_read_counter_def)

lemma cuid_next_all_layout:
  assumes "cuid_sized cid" and "drop 23 (cuid_value cid) = [NUL]"
  shows "\<exists>cid'. cuid_next_all cid ts = Inr cid' \<and> cuid_sized cid' \<and>
           drop 23 (cuid_value cid') = [NUL] \<and>
           (ts \<noteq> [] \<longrightarrow>
              cuid_value cid'
                = cuid_layout (last ts) (cuid_read_counter (cuid_counter cid')) (cuid_fingerprint cid)
                    (mwc_read_random (cuid_rnd1 cid')) (mwc_read_random (cuid_rnd2 cid')) @ [NUL]) \<and>
           (ts = [] \<longrightarrow> cid' = cid) \<and>
           cuid_fingerprint cid' = cuid_fingerprint cid \<and>
           cuid_read_counter (cuid_counter cid')
             = cuid_read_counter (cuid_counter cid) + of_nat (length ts) \<and>
           cuid_rnd1 cid' = (mwc_next_random ^^ length ts) (cuid_rnd1 cid) \<and>
           cuid_rnd2 cid' = (mwc_next_random ^^ length ts) (cuid_rnd2 cid)"
  using assms
proof (induction ts arbitrary: cid)
  case Nil
  then show ?case by simp
next
  case (Cons t ts)
  from cuid_next_layout[OF Cons.prems, of t] obtain c1 where
    c1: "cuid_next cid t = Inr c1" "cuid_sized c1"
    "cuid_value c1 = cuid_layout t (cuid_read_counter (cuid_counter c1)) (cuid_fingerprint cid)
                       (mwc_read_random (cuid_rnd1 c1)) (mwc_read_random (cuid_rnd2 c1)) @ [NUL]"
    "cuid_fingerprint c1 = cuid_fingerprint cid"
    "cuid_read_counter (cuid_counter c1) = cuid_read_counter (cuid_counter cid) + 1"
    "cuid_rnd1 c1 = mwc_next_random (cuid_rnd1 cid)"
    "cuid_rnd2 c1 = mwc_next_random (cuid_rnd2 cid)"
    by blast
  have "4 \<le> length (cuid_fingerprint cid)"
    using Cons.prems(1) by (simp add: cuid_sized_def CUID_BASE36_RESULT_SIZE_def)
  then have d: "drop 23 (cuid_value c1) = [NUL]"
    by (simp add: c1(3) length_cuid_layout)
  from Cons.IH[OF c1(2) d] obtain c2 where
    c2: "cuid_next_all c1 ts = Inr c2" "cuid_sized c2" "drop 23 (cuid_value c2) = [NUL]"
    "ts \<noteq> [] \<longrightarrow>
       cuid_value c2 = cuid_layout (last ts) (cuid_read_counter (cuid_counter c2)) (cuid_fingerprint c1)
                         (mwc_read_random (cuid_rnd1 c2)) (mwc_read_random (cuid_rnd2 c2)) @ [NUL]"
    "ts = [] \<longrightarrow> c2 = c1"
    "cuid_fingerprint c2 = cuid_fingerprint c1"
    "cuid_read_counter (cuid_counter c2) = cuid_read_counter (cuid_counter c1) + of_nat (length ts)"
    "cuid_rnd1 c2 = (mwc_next_random ^^ length ts) (cuid_rnd1 c1)"
    "cuid_rnd2 c2 = (mwc_next_random ^^ length ts) (cuid_rnd2 c1)"
    by blast
  have "cuid_value c2 = cuid_layout (last (t # ts)) (cuid_read_counter (cuid_counter c2))
                          (cuid_fingerprint cid) (mwc_read_random (cuid_rnd1 c2))
                          (mwc_read_random (cuid_rnd2 c2)) @ [NUL]"
    using c2(4,5) c1(3,4) by (cases "ts = []") simp_all
  then show ?case
    using c1(1) c2(1,2,3,6,7,8,9) c1(4,5,6,7) by (simp add: funpow_swap1)
qed

lemma cuid_layout_fingerprint:
  "take 5 f = take 5 g \<Longrightarrow> cuid_layout t c f r1 r2 = cuid_layout t c g r1 r2"
proof -
  assume "take 5 f = take 5 g"
  then have "take 4 (take 5 f) = take 4 (take 5 g)" by simp
  then have "take 4 f = take 4 g" by simp
  then show ?thesis by (simp add: cuid_layout_def)
qed

lemma cuid_layout_parts:
  assumes "4 \<le> length fingerprint" and "out = cuid_layout t c fingerprint r1 r2 @ [NUL]"
  shows "length out = 24" and "out ! 0 = CHR ''c''"
    and "take 6 (drop 1 out) = encode_padded (unat t) 6 (CHR ''0'')"
    and "take 4 (drop 7 out) = encode_padded (unat c) 4 (CHR ''0'')"
    and "take 4 (drop 11 out) = take 4 fingerprint"
    and "take 4 (drop 15 out) = encode_padded (unat r1) 4 (CHR ''0'')"
    and "take 4 (drop 19 out) = encode_padded (unat r2) 4 (CHR ''0'')"
    and "out ! 23 = NUL"
    and "NUL \<notin> set (take 11 out)" and "NUL \<notin> set (take 8 (drop 15 out))"
proof -
  let ?T = "encode_padded (unat t) 6 (CHR ''0'')"
  let ?C = "encode_padded (unat c) 4 (CHR ''0'')"
  let ?F = "take 4 fingerprint"
  let ?R1 = "encode_padded (unat r1) 4 (CHR ''0'')"
  let ?R2 = "encode_padded (unat r2) 4 (CHR ''0'')"
  have out: "out = CHR ''c'' # ?T @ ?C @ ?F @ ?R1 @ ?R2 @ [NUL]"
    by (simp add: assms(2) cuid_layout_def)
  have l: "length ?T = 6" "length ?C = 4" "length ?F = 4" "length ?R1 = 4" "length ?R2 = 4"
    using assms(1) by (simp_all add: length_encode_padded)
  show "length out = 24" using l by (simp add: out)
  show "out ! 0 = CHR ''c''" by (simp add: out)
  show "take 6 (drop 1 out) = ?T" using l by (simp add: out)
  show "take 4 (drop 7 out) = ?C" using l by (simp add: out)
  show "take 4 (drop 11 out) = ?F" using l by (simp add: out)
  show "take 4 (drop 15 out) = ?R1" using l by (simp add: out)
  show "take 4 (drop 19 out) = ?R2" using l by (simp add: out)
  have "out ! 23 = (CHR ''c'' # ?T @ ?C @ ?F @ ?R1 @ ?R2 @ [NUL]) ! 23" by (simp only: out)
  also have "\<dots> = NUL" using l by (simp add: nth_append nth_Cons')
  finally show "out ! 23 = NUL" .
  have "take 11 out = CHR ''c'' # ?T @ ?C" using l by (simp add: out)
  then show "NUL \<notin> set (take 11 out)"
    using encode_padded_no_NUL[of "unat t" 6] encode_padded_no_NUL[of "unat c" 4]
    by (simp add: NUL_def)
  have "take 8 (drop 15 out) = ?R1 @ ?R2" using l by (simp add: out)
  then show "NUL \<notin> set (take 8 (drop 15 out))"
    using encode_padded_no_NUL[of "unat r1" 4] encode_padded_no_NUL[of "unat r2" 4]
    by simp
qed

lemma cuid_run_layout:
  assumes "cuid_create fingerprint rand32 k = Some (Inr (cid0, k'))"
    and "length destination = CUID_SIZE"
  shows "\<exists>cid1 cid out.
           cuid_init cid0 t0 = Inr cid1 \<and> cuid_next_all cid1 ts = Inr cid \<and>
           cuid_read cid destination = Inr out \<and>
           out = cuid_layout (last (t0 # ts)) (cuid_read_counter (cuid_counter cid)) fingerprint
                   (mwc_read_random (cuid_rnd1 cid)) (mwc_read_random (cuid_rnd2 cid)) @ [NUL] \<and>
           cuid_read_counter (cuid_counter cid) = of_nat (length ts) \<and>
           cuid_rnd1 cid = (mwc_next_random ^^ length ts) (mwc_init (cuid_rnd1 cid0)) \<and>
           cuid_rnd2 cid = (mwc_next_random ^^ length ts) (mwc_init (cuid_rnd2 cid0))"
proof -
  note c = cuid_create_Some[OF assms(1)]
  from cuid_init_layout[OF c(1), of t0] obtain cid1 where
    i: "cuid_init cid0 t0 = Inr cid1" "cuid_sized cid1"
    "cuid_value cid1 = cuid_layout t0 (cuid_read_counter (cuid_counter cid1)) (cuid_fingerprint cid0)
                         (mwc_read_random (cuid_rnd1 cid1)) (mwc_read_random (cuid_rnd2 cid1)) @ [NUL]"
    "cuid_fingerprint cid1 = cuid_fingerprint cid0"
    "cuid_read_counter (cuid_counter cid1) = 0"
    "cuid_rnd1 cid1 = mwc_init (cuid_rnd1 cid0)" "cuid_rnd2 cid1 = mwc_init (cuid_rnd2 cid0)"
    by blast
  have f4: "4 \<le> length (cuid_fingerprint cid0)"
    using c(1) by (simp add: cuid_sized_def CUID_BASE36_RESULT_SIZE_def)
  then have d: "drop 23 (cuid_value cid1) = [NUL]" by (simp add: i(3) length_cuid_layout)
  from cuid_next_all_layout[OF i(2) d, of ts] obtain cid where
    n: "cuid_next_all cid1 ts = Inr cid" "cuid_sized cid"
    "ts \<noteq> [] \<longrightarrow>
       cuid_value cid = cuid_layout (last ts) (cuid_read_counter (cuid_counter cid)) (cuid_fingerprint cid1)
                          (mwc_read_random (cuid_rnd1 cid)) (mwc_read_random (cuid_rnd2 cid)) @ [NUL]"
    "ts = [] \<longrightarrow> cid = cid1"
    "cuid_read_counter (cuid_counter cid) = cuid_read_counter (cuid_counter cid1) + of_nat (length ts)"
    "cuid_rnd1 cid = (mwc_next_random ^^ length ts) (cuid_rnd1 cid1)"
    "cuid_rnd2 cid = (mwc_next_random ^^ length ts) (cuid_rnd2 cid1)"
    by blast
  have v: "cuid_value cid = cuid_layout (last (t0 # ts)) (cuid_read_counter (cuid_counter cid))
                              (cuid_fingerprint cid0) (mwc_read_random (cuid_rnd1 cid))
                              (mwc_read_random (cuid_rnd2 cid)) @ [NUL]"
    using n(3,4) i(3,4) by (cases "ts = []") simp_all
  have v': "cuid_value cid = cuid_layout (last (t0 # ts)) (cuid_read_counter (cuid_counter cid))
                               fingerprint (mwc_read_random (cuid_rnd1 cid))
                               (mwc_read_random (cuid_rnd2 cid)) @ [NUL]"
    by (simp only: v cuid_layout_fingerprint[OF c(2)])
  have lv: "length (cuid_value cid) = CUID_SIZE" using n(2) by (simp add: cuid_sized_def)
  have "cuid_read cid destination = Inr (cuid_value cid)"
    using cuid_read_sized[OF lv, of destination] assms(2) by simp
  then show ?thesis using i(1) n(1) v' n(5,6,7) i(5,6,7) by simp
qed

text \<open>
  Claim C2. For a context built by \<open>cuid_create\<close>, \<open>cuid_init\<close> and then any list of
  \<open>cuid_next\<close> calls all return, and \<open>cuid_read\<close> into a \<open>CUID_SIZE\<close> array gives 24 characters:
  the letter \<open>c\<close> at 0, at 1..6 the last timestamp padded to 6, at 7..10 the counter padded to 4,
  at 11..14 the first four characters given to \<open>cuid_create\<close>, at 15..18 and 19..22 the values
  read from the two generators padded to 4, and the terminator at 23. No character outside the
  fingerprint block is the terminator. The counter is the number of \<open>cuid_next\<close> calls.
\<close>

theorem cuid_value_layout:
  assumes "cuid_create fingerprint rand32 k = Some (Inr (cid0, k'))"
    and "length destination = CUID_SIZE"
  shows "\<exists>cid1 cid out.
           cuid_init cid0 t0 = Inr cid1 \<and> cuid_next_all cid1 ts = Inr cid \<and>
           cuid_read cid destination = Inr out \<and>
           out = cuid_layout (last (t0 # ts)) (cuid_read_counter (cuid_counter cid)) fingerprint
                   (mwc_read_random (cuid_rnd1 cid)) (mwc_read_random (cuid_rnd2 cid)) @ [NUL] \<and>
           length out = 24 \<and>
           out ! 0 = CHR ''c'' \<and>
           take 6 (drop 1 out) = encode_padded (unat (last (t0 # ts))) 6 (CHR ''0'') \<and>
           take 4 (drop 7 out)
             = encode_padded (unat (cuid_read_counter (cuid_counter cid))) 4 (CHR ''0'') \<and>
           take 4 (drop 11 out) = take 4 fingerprint \<and>
           take 4 (drop 15 out)
             = encode_padded (unat (mwc_read_random (cuid_rnd1 cid))) 4 (CHR ''0'') \<and>
           take 4 (drop 19 out)
             = encode_padded (unat (mwc_read_random (cuid_rnd2 cid))) 4 (CHR ''0'') \<and>
           out ! 23 = NUL \<and>
           NUL \<notin> set (take 11 out) \<and> NUL \<notin> set (take 8 (drop 15 out)) \<and>
           cuid_read_counter (cuid_counter cid) = of_nat (length ts)"
proof -
  from cuid_run_layout[OF assms, of t0 ts] obtain cid1 cid out where
    r: "cuid_init cid0 t0 = Inr cid1" "cuid_next_all cid1 ts = Inr cid"
    "cuid_read cid destination = Inr out"
    "out = cuid_layout (last (t0 # ts)) (cuid_read_counter (cuid_counter cid)) fingerprint
             (mwc_read_random (cuid_rnd1 cid)) (mwc_read_random (cuid_rnd2 cid)) @ [NUL]"
    "cuid_read_counter (cuid_counter cid) = of_nat (length ts)"
    by blast
  have "4 \<le> length fingerprint" using cuid_create_Some(3)[OF assms(1)] by simp
  note p = cuid_layout_parts[OF this r(4)]
  show ?thesis
    using r(1,2,3,5) p r(4) by blast
qed

theorem cuid_value_layout_witness:
  "\<exists>cid0 k' cid1 cid out.
     cuid_create (''fing'' @ [NUL]) (\<lambda>_. 0) 0 = Some (Inr (cid0, k')) \<and>
     length (replicate 24 NUL) = CUID_SIZE \<and>
     cuid_init cid0 7 = Inr cid1 \<and> cuid_next_all cid1 [8, 9] = Inr cid \<and>
     cuid_read cid (replicate 24 NUL) = Inr out \<and>
     take 15 out = ''c0000090002fing'' \<and> out ! 23 = NUL"
proof -
  obtain cid0 k' where c: "cuid_create (''fing'' @ [NUL]) (\<lambda>_. 0) 0 = Some (Inr (cid0, k'))"
    using cuid_create_zero[of "''fing'' @ [NUL]"] by auto
  have l: "length (replicate 24 NUL) = CUID_SIZE" by (simp add: CUID_SIZE_def)
  from cuid_value_layout[OF c l, of 7 "[8, 9]"] obtain cid1 cid out where
    r: "cuid_init cid0 7 = Inr cid1" "cuid_next_all cid1 [8, 9] = Inr cid"
    "cuid_read cid (replicate 24 NUL) = Inr out"
    "out = cuid_layout (last [7, 8, 9]) (cuid_read_counter (cuid_counter cid)) (''fing'' @ [NUL])
             (mwc_read_random (cuid_rnd1 cid)) (mwc_read_random (cuid_rnd2 cid)) @ [NUL]"
    "out ! 23 = NUL" "cuid_read_counter (cuid_counter cid) = of_nat (length [8 :: 64 word, 9])"
    by blast
  have "encode 9 = ''9''" "encode 2 = ''2''" by (simp_all add: encode.simps cuid_radix36_table_def)
  then have "encode_padded 9 6 (CHR ''0'') = ''000009''" "encode_padded 2 4 (CHR ''0'') = ''0002''"
    by (simp_all add: encode_padded_def eval_nat_numeral)
  then have "take 15 out = ''c0000090002fing''"
    by (simp add: r(4,6) cuid_layout_def)
  then show ?thesis using c l r(1,2,3,5) by blast
qed

text \<open>
  Claim C1. For a context built by \<open>cuid_create\<close> from the C string \<open>fing\<close>, \<open>cuid_init\<close> with
  123456789 returns a context whose value read into a \<open>CUID_SIZE\<close> array starts with
  \<open>c21i3v90000fing\<close>, and a following \<open>cuid_next\<close> with 223456789 returns one whose value starts
  with \<open>c3p1gd10001fing\<close>.
\<close>

theorem cuid_pure_end_to_end:
  assumes "cuid_create (''fing'' @ [NUL]) rand32 k = Some (Inr (cid0, k'))"
    and "length d1 = CUID_SIZE" and "length d2 = CUID_SIZE"
  shows "\<exists>cid1 out1 cid2 out2.
           cuid_init cid0 123456789 = Inr cid1 \<and> cuid_read cid1 d1 = Inr out1 \<and>
           take 15 out1 = ''c21i3v90000fing'' \<and>
           cuid_next cid1 223456789 = Inr cid2 \<and> cuid_read cid2 d2 = Inr out2 \<and>
           take 15 out2 = ''c3p1gd10001fing''"
proof -
  have e: "encode 123456789 = ''21i3v9''" "encode 223456789 = ''3p1gd1''" "encode 0 = ''0''"
    "encode (Suc 0) = ''1''"
    by (simp_all add: encode.simps cuid_radix36_table_def)
  have r3: "replicate 3 (CHR ''0'') = ''000''" by (simp add: numeral_3_eq_3)
  have p: "encode_padded 123456789 6 (CHR ''0'') = ''21i3v9''"
    "encode_padded 223456789 6 (CHR ''0'') = ''3p1gd1''"
    "encode_padded 0 4 (CHR ''0'') = ''0000''" "encode_padded (Suc 0) 4 (CHR ''0'') = ''0001''"
    by (simp_all add: encode_padded_def e r3)
  from cuid_run_layout[OF assms(1,2), of 123456789 "[]"] obtain cid1 out1 where
    a: "cuid_init cid0 123456789 = Inr cid1" "cuid_read cid1 d1 = Inr out1"
    "out1 = cuid_layout 123456789 (cuid_read_counter (cuid_counter cid1)) (''fing'' @ [NUL])
              (mwc_read_random (cuid_rnd1 cid1)) (mwc_read_random (cuid_rnd2 cid1)) @ [NUL]"
    "cuid_read_counter (cuid_counter cid1) = 0"
    by auto
  from cuid_run_layout[OF assms(1,3), of 123456789 "[223456789]"] a(1) obtain cid2 out2 where
    b: "cuid_next cid1 223456789 = Inr cid2" "cuid_read cid2 d2 = Inr out2"
    "out2 = cuid_layout 223456789 (cuid_read_counter (cuid_counter cid2)) (''fing'' @ [NUL])
              (mwc_read_random (cuid_rnd1 cid2)) (mwc_read_random (cuid_rnd2 cid2)) @ [NUL]"
    "cuid_read_counter (cuid_counter cid2) = 1"
    by (auto split: sum.splits)
  have "take 15 out1 = ''c21i3v90000fing''" by (simp add: a(3,4) cuid_layout_def p)
  moreover have "take 15 out2 = ''c3p1gd10001fing''" by (simp add: b(3,4) cuid_layout_def p)
  ultimately show ?thesis using a(1,2) b(1,2) by blast
qed

theorem cuid_pure_end_to_end_witness:
  "\<exists>cid0 k' cid1 out1 cid2 out2.
     cuid_create (''fing'' @ [NUL]) (\<lambda>_. 0) 0 = Some (Inr (cid0, k')) \<and>
     length (replicate 24 (CHR ''x'')) = CUID_SIZE \<and>
     cuid_init cid0 123456789 = Inr cid1 \<and> cuid_read cid1 (replicate 24 (CHR ''x'')) = Inr out1 \<and>
     take 15 out1 = ''c21i3v90000fing'' \<and>
     cuid_next cid1 223456789 = Inr cid2 \<and> cuid_read cid2 (replicate 24 (CHR ''x'')) = Inr out2 \<and>
     take 15 out2 = ''c3p1gd10001fing''"
proof -
  obtain cid0 k' where c: "cuid_create (''fing'' @ [NUL]) (\<lambda>_. 0) 0 = Some (Inr (cid0, k'))"
    using cuid_create_zero[of "''fing'' @ [NUL]"] by auto
  have l: "length (replicate 24 (CHR ''x'')) = CUID_SIZE" by (simp add: CUID_SIZE_def)
  from cuid_pure_end_to_end[OF c l l] c l show ?thesis by blast
qed

section \<open>Quick mode and the result array\<close>

lemma for_loop_fail:
  assumes "I i s" and "i \<le> j" and "j < hi"
    and step: "\<And>k t. i \<le> k \<Longrightarrow> k < j \<Longrightarrow> I k t \<Longrightarrow> \<exists>t'. body k t = Inr t' \<and> I (Suc k) t'"
    and fail: "\<And>t. I j t \<Longrightarrow> body j t = Inl e"
  shows "for_loop i hi body s = Inl e"
  using assms(1,2,4)
proof (induction "j - i" arbitrary: i s)
  case 0
  then have "i = j" by simp
  then show ?case using 0(2) fail assms(3) by (subst for_loop.simps) simp
next
  case (Suc d)
  then have lt: "i < j" by simp
  from Suc.prems(3)[OF le_refl lt Suc.prems(1)]
  obtain t' where t': "body i s = Inr t'" "I (Suc i) t'" by blast
  have "for_loop (Suc i) hi body t' = Inl e"
  proof (rule Suc.hyps(1))
    show "d = j - Suc i" using Suc.hyps(2) by simp
    show "I (Suc i) t'" by (rule t')
    show "Suc i \<le> j" using lt by simp
    show "\<And>k t. Suc i \<le> k \<Longrightarrow> k < j \<Longrightarrow> I k t \<Longrightarrow> \<exists>t'. body k t = Inr t' \<and> I (Suc k) t'"
      using Suc.prems(3) by simp
  qed
  then show ?case using lt assms(3) t' by (subst for_loop.simps) simp
qed

lemma cuid_base36_overflow:
  assumes "length buf \<le> length (encode (unat n))"
  shows "cuid_base36 n buf = Inl Out_Of_Bounds"
proof -
  let ?e = "encode (unat n)"
  let ?L = "length ?e"
  obtain inverted where
    d: "cuid_base36_digits n (replicate CUID_BASE36_RESULT_SIZE NUL) 0 = (inverted, ?L)"
    using cuid_base36_digits_encode by blast
  have pos: "0 < ?L" using encode_nonempty[of "unat n"] by simp
  let ?body = "\<lambda>i buf. buf_write buf i (inverted ! (?L - 1 - i))"
  let ?I = "\<lambda>(k :: nat) b. length b = length buf"
  have step: "\<exists>t'. ?body k t = Inr t' \<and> ?I (Suc k) t'" if "k < length buf" "?I k t" for k t
    using that by (simp add: buf_write_def)
  show ?thesis
  proof (cases "length buf < ?L")
    case True
    have "for_loop 0 ?L ?body buf = Inl Out_Of_Bounds"
    proof (rule for_loop_fail[where I = ?I and j = "length buf"])
      show "?I 0 buf" by simp
      show "0 \<le> length buf" by simp
      show "length buf < ?L" by (rule True)
      show "\<And>k t. 0 \<le> k \<Longrightarrow> k < length buf \<Longrightarrow> ?I k t \<Longrightarrow> \<exists>t'. ?body k t = Inr t' \<and> ?I (Suc k) t'"
        using step by blast
      show "\<And>t. ?I (length buf) t \<Longrightarrow> ?body (length buf) t = Inl Out_Of_Bounds"
        by (simp add: buf_write_def)
    qed
    then show ?thesis using d pos by (simp add: cuid_base36_def)
  next
    case False
    with assms have eq: "length buf = ?L" by simp
    have "\<exists>t. for_loop 0 ?L ?body buf = Inr t \<and> ?I ?L t"
    proof (rule for_loop_inv[where I = ?I])
      show "?I 0 buf" by simp
      show "0 \<le> ?L" by simp
      show "\<And>j t. 0 \<le> j \<Longrightarrow> j < ?L \<Longrightarrow> ?I j t \<Longrightarrow> \<exists>t'. ?body j t = Inr t' \<and> ?I (Suc j) t'"
        using step eq by simp
    qed
    then obtain t where "for_loop 0 ?L ?body buf = Inr t" "length t = ?L" using eq by auto
    then show ?thesis using d pos by (simp add: cuid_base36_def buf_write_def)
  qed
qed

lemma cuid_base36_pad_overflow:
  assumes "unat w < 16" and "length buf \<le> length (encode (unat n))"
  shows "cuid_base36_pad n buf w pc = Inl Out_Of_Bounds"
  using assms(1) cuid_base36_overflow[OF assms(2)]
  by (simp add: cuid_base36_pad_def CUID_BASE36_RESULT_SIZE_def)

lemma cuid_base36_pad_fits:
  assumes "unat w < 16" and "length (encode (unat n)) < length buf" and "unat w < length buf"
  shows "\<exists>tail. cuid_base36_pad n buf w pc
                  = Inr (encode_padded (unat n) (unat w) pc @ NUL # tail, unat w) \<and>
               length tail = length buf - Suc (unat w)"
  using cuid_base36_pad_ok[OF assms, of pc] assms(2) by simp

lemma at_offset_pad_fits:
  assumes "k \<le> length buf" and "unat w < 16"
    and "k + length (encode (unat n)) < length buf" and "k + unat w < length buf"
  shows "\<exists>tail. at_offset k (\<lambda>b. cuid_base36_pad n b w pc) buf
                  = Inr (take k buf @ encode_padded (unat n) (unat w) pc @ NUL # tail, unat w) \<and>
               length tail = length buf - k - Suc (unat w)"
proof -
  have "length (encode (unat n)) < length (drop k buf)" "unat w < length (drop k buf)"
    using assms(3,4) by simp_all
  from cuid_base36_pad_fits[OF assms(2) this, of pc] show ?thesis
    using assms(1) by (auto simp: at_offset_def)
qed

lemma at_offset_pad_overflow:
  assumes "k \<le> length buf" and "unat w < 16" and "length buf \<le> k + length (encode (unat n))"
  shows "at_offset k (\<lambda>b. cuid_base36_pad n b w pc) buf = Inl Out_Of_Bounds"
proof -
  have "length (drop k buf) \<le> length (encode (unat n))" using assms(3) by simp
  from cuid_base36_pad_overflow[OF assms(2) this, of pc] show ?thesis
    using assms(1) by (simp add: at_offset_def)
qed

lemma length_encode_gt: "36 ^ k \<le> n \<Longrightarrow> k < length (encode n)"
proof (induction n arbitrary: k rule: encode.induct)
  case (1 n)
  show ?case
  proof (cases k)
    case 0
    then show ?thesis using encode_nonempty[of n] by simp
  next
    case (Suc k')
    have big: "\<not> n < 36"
    proof -
      have "(36::nat) * 1 \<le> 36 * 36 ^ k'" by (intro mult_le_mono2) simp
      also have "\<dots> \<le> n" using "1.prems" Suc by simp
      finally show ?thesis by simp
    qed
    have "36 ^ k' \<le> n div 36"
    proof -
      have "36 ^ k' * 36 \<le> n" using "1.prems" Suc by (simp add: mult.commute)
      then have "36 ^ k' * 36 div 36 \<le> n div 36" by (rule div_le_mono)
      then show ?thesis by simp
    qed
    from "1.IH"[OF big this] show ?thesis using big Suc by (subst encode.simps) simp
  qed
qed

lemma length_encode_32: "length (encode (unat (ucast (x :: 32 word) :: 64 word))) \<le> 7"
proof -
  have "unat x < 2 ^ 32" using unsigned_less[of x] by simp
  also have "(2::nat) ^ 32 < 36 ^ 7" by simp
  finally show ?thesis using length_encode_le[of 7 "unat x"] by (simp add: unat_ucast_32_64)
qed

lemma at_offset_Inr:
  "k \<le> length buf \<Longrightarrow> f (drop k buf) = Inr (sub, x) \<Longrightarrow> at_offset k f buf = Inr (take k buf @ sub, x)"
  by (simp add: at_offset_def)

lemma at_offset_Inl:
  "k \<le> length buf \<Longrightarrow> f (drop k buf) = Inl e \<Longrightarrow> at_offset k f buf = Inl e"
  by (simp add: at_offset_def)

lemma sum_list_unat_bound: "sum_list (map unat (xs :: 32 word list)) \<le> length xs * (2 ^ 32 - 1)"
proof (induction xs)
  case Nil
  then show ?case by simp
next
  case (Cons x xs)
  have "unat x < 2 ^ 32" using unsigned_less[of x] by simp
  then have "unat x \<le> 2 ^ 32 - 1" by simp
  with Cons show ?case by simp
qed

lemma hostname_number_take:
  "n \<le> length hv \<Longrightarrow> n \<le> 64 \<Longrightarrow>
   unat (fold (\<lambda>i hostname_number. hostname_number + ucast (hv ! i)) [0..<n] (0 :: 64 word))
     = sum_list (map unat (take n (hv :: 32 word list)))"
proof (induction n)
  case 0
  then show ?case by simp
next
  case (Suc n)
  let ?acc = "fold (\<lambda>i hostname_number. hostname_number + ucast (hv ! i)) [0..<n] (0 :: 64 word)"
  have acc: "unat ?acc = sum_list (map unat (take n hv))" using Suc by simp
  have "sum_list (map unat (take n hv)) \<le> length (take n hv) * (2 ^ 32 - 1)"
    by (rule sum_list_unat_bound)
  also have "\<dots> \<le> 64 * (2 ^ 32 - 1)" using Suc.prems by simp
  finally have b: "unat ?acc \<le> 64 * (2 ^ 32 - 1)" by (simp only: acc)
  have x: "unat (hv ! n) < 2 ^ 32" using unsigned_less[of "hv ! n"] by simp
  have "unat (?acc + ucast (hv ! n)) = (unat ?acc + unat (hv ! n)) mod 2 ^ 64"
    by (simp add: unat_word_ariths unat_ucast_32_64)
  also have "\<dots> = unat ?acc + unat (hv ! n)" using b x by simp
  finally have "unat (?acc + ucast (hv ! n)) = sum_list (map unat (take n hv)) + unat (hv ! n)"
    by (simp only: acc)
  then show ?case using Suc.prems by (simp add: take_Suc_conv_app_nth)
qed

lemma hostname_number_eq:
  assumes "length hv = 64"
  shows "unat (fold (\<lambda>i hostname_number. hostname_number + ucast (hv ! i))
                 [0..<CUID_HOSTNAME_LENGTH div 4] (0 :: 64 word))
           = sum_list (map unat (hv :: 32 word list))"
  using hostname_number_take[of 64 hv] assms by (simp add: CUID_HOSTNAME_LENGTH_def)

lemma hostname_number_len:
  fixes hv :: "32 word list"
  assumes "length hv = 64"
  shows "length (encode (unat (fold (\<lambda>i hostname_number. hostname_number + ucast (hv ! i))
                                 [0..<CUID_HOSTNAME_LENGTH div 4] (0 :: 64 word)))) \<le> 8"
proof -
  have "sum_list (map unat hv) \<le> length hv * (2 ^ 32 - 1)" by (rule sum_list_unat_bound)
  also have "\<dots> < 36 ^ 8" using assms by simp
  finally show ?thesis
    using length_encode_le[of 8 "sum_list (map unat hv)"] by (simp add: hostname_number_eq[OF assms])
qed

lemma cuid_get_fingerprint_fits:
  fixes hv :: "32 word list"
  defines "h \<equiv> unat (fold (\<lambda>i hostname_number. hostname_number + ucast (hv ! i))
                        [0..<CUID_HOSTNAME_LENGTH div 4] (0 :: 64 word))"
  assumes "length (encode h) < length result" and "2 + length (encode (unat pid)) < length result"
    and "4 < length result"
  shows "\<exists>tail. cuid_get_fingerprint (0, hv) pid result
                  = Inr (encode_padded h 2 (CHR ''0'') @ encode_padded (unat pid) 2 (CHR ''0'') @
                         NUL # tail, 4) \<and>
               length tail = length result - 5"
proof -
  have two: "unat (2 :: 8 word) < 16" "unat (2 :: 8 word) = 2" by simp_all
  obtain t1 where
    s1: "cuid_base36_pad (fold (\<lambda>i hostname_number. hostname_number + ucast (hv ! i))
                            [0..<CUID_HOSTNAME_LENGTH div 4] 0) result 2 (CHR ''0'')
           = Inr (encode_padded h 2 (CHR ''0'') @ NUL # t1, 2)"
    and l1: "length t1 = length result - 3"
    using cuid_base36_pad_fits[OF two(1), of _ result "CHR ''0''"] assms(2,4)
    unfolding h_def by fastforce
  define r1 where "r1 = encode_padded h 2 (CHR ''0'') @ NUL # t1"
  have lr1: "length r1 = length result" using l1 assms(4) by (simp add: r1_def length_encode_padded)
  have "2 \<le> length r1" "2 + length (encode (unat pid)) < length r1" "2 + unat (2 :: 8 word) < length r1"
    using lr1 assms(3,4) by simp_all
  from at_offset_pad_fits[OF this(1) two(1) this(2,3), of "CHR ''0''"] obtain t2 where
    s2: "at_offset 2 (\<lambda>b. cuid_base36_pad pid b 2 (CHR ''0'')) r1
           = Inr (take 2 r1 @ encode_padded (unat pid) 2 (CHR ''0'') @ NUL # t2, 2)"
    and l2: "length t2 = length r1 - 2 - 3"
    by auto
  have "take 2 r1 = encode_padded h 2 (CHR ''0'')" by (simp add: r1_def length_encode_padded)
  then show ?thesis using s1 s2 l2 lr1 by (simp add: cuid_get_fingerprint_def r1_def[symmetric])
qed

lemma cuid_get_fingerprint_overflow:
  fixes hv :: "32 word list"
  assumes "length result \<le> length (encode (unat (fold (\<lambda>i hostname_number. hostname_number + ucast (hv ! i))
                        [0..<CUID_HOSTNAME_LENGTH div 4] (0 :: 64 word))))"
  shows "cuid_get_fingerprint (0, hv) pid result = Inl Out_Of_Bounds"
proof -
  have two: "unat (2 :: 8 word) < 16" by simp
  from cuid_base36_pad_overflow[OF two assms, of "CHR ''0''"] show ?thesis
    by (simp add: cuid_get_fingerprint_def)
qed

lemma cuid_before_rand2:
  fixes hv :: "32 word list"
  defines "h \<equiv> unat (fold (\<lambda>i hostname_number. hostname_number + ucast (hv ! i))
                        [0..<CUID_HOSTNAME_LENGTH div 4] (0 :: 64 word))"
  assumes len: "CUID_SIZE \<le> length result" and hv: "length hv = 64"
    and pid: "13 + length (encode (unat pid)) < length result"
  shows "\<exists>tail. length tail = length result - 20 \<and>
           cuid timestamp (0, hv) pid rand32 (counter, k) result
             = (case at_offset 19 (\<lambda>b. cuid_base36_pad (ucast (rand32 (Suc k))) b 4 (CHR ''0''))
                       (CHR ''c'' # encode_padded (unat timestamp) 6 (CHR ''0'') @
                        encode_padded (unat (counter + 1)) 4 (CHR ''0'') @
                        (encode_padded h 2 (CHR ''0'') @ encode_padded (unat pid) 2 (CHR ''0'')) @
                        encode_padded (unat (rand32 k)) 4 (CHR ''0'') @ NUL # tail) of
                  Inl e \<Rightarrow> Inl e
                | Inr (r5, n5) \<Rightarrow>
                    (case buf_write r5 (CUID_SIZE - 1) NUL of
                       Inl e \<Rightarrow> Inl e
                     | Inr r6 \<Rightarrow> Inr (r6, 19 + n5, counter + 1, Suc (Suc k))))"
proof -
  have n24: "24 \<le> length result" using len by (simp add: CUID_SIZE_def)
  have six: "unat (6 :: 8 word) < 16" and four: "unat (4 :: 8 word) < 16" by simp_all
  let ?T = "encode_padded (unat timestamp) 6 (CHR ''0'')"
  let ?C = "encode_padded (unat (counter + 1)) 4 (CHR ''0'')"
  let ?F = "encode_padded h 2 (CHR ''0'') @ encode_padded (unat pid) 2 (CHR ''0'')"
  let ?R1 = "encode_padded (unat (rand32 k)) 4 (CHR ''0'')"
  have lens: "length ?T = 6" "length ?C = 4" "length ?F = 4" "length ?R1 = 4"
    by (simp_all add: length_encode_padded)
  define r0 where "r0 = result[0 := CHR ''c'']"
  have ne: "result \<noteq> []" using n24 by auto
  have s0: "buf_write result 0 (CHR ''c'') = Inr r0" using ne by (simp add: buf_write_def r0_def)
  have l0: "length r0 = length result" by (simp add: r0_def)
  from ne obtain a rest where "result = a # rest" by (cases result) auto
  then have t0: "take 1 r0 = [CHR ''c'']" by (simp add: r0_def)
  \<comment> \<open>timestamp\<close>
  have "1 + length (encode (unat timestamp)) < length r0"
    using length_encode_unat[of timestamp] n24 l0 by simp
  moreover have "1 \<le> length r0" "1 + unat (6 :: 8 word) < length r0" using n24 l0 by simp_all
  ultimately obtain t1 where
    s1: "at_offset 1 (\<lambda>b. cuid_base36_pad timestamp b 6 (CHR ''0'')) r0
           = Inr (take 1 r0 @ ?T @ NUL # t1, 6)"
    and lt1: "length t1 = length r0 - 1 - 7"
    using at_offset_pad_fits[OF _ six, of 1 r0 timestamp "CHR ''0''"] by auto
  define r1 where "r1 = CHR ''c'' # ?T @ NUL # t1"
  have s1: "at_offset 1 (\<lambda>b. cuid_base36_pad timestamp b 6 (CHR ''0'')) r0 = Inr (r1, 6)"
    by (simp only: s1 t0 r1_def append_Cons append_Nil)
  have l1: "length r1 = length result" using lt1 l0 n24 lens by (simp add: r1_def)
  have t1: "take 7 r1 = CHR ''c'' # ?T" using lens by (simp add: r1_def)
  \<comment> \<open>counter\<close>
  have "7 + length (encode (unat (ucast (counter + 1) :: 64 word))) < length r1"
    using length_encode_32[of "counter + 1"] n24 l1 by simp
  moreover have "7 \<le> length r1" "7 + unat (4 :: 8 word) < length r1" using n24 l1 by simp_all
  ultimately obtain t2 where
    s2: "at_offset 7 (\<lambda>b. cuid_base36_pad (ucast (counter + 1)) b 4 (CHR ''0'')) r1
           = Inr (take 7 r1 @ ?C @ NUL # t2, 4)"
    and lt2: "length t2 = length r1 - 7 - 5"
    using at_offset_pad_fits[OF _ four, of 7 r1 "ucast (counter + 1)" "CHR ''0''"]
    by (auto simp: unat_ucast_32_64)
  define r2 where "r2 = CHR ''c'' # ?T @ ?C @ NUL # t2"
  have s2: "at_offset 7 (\<lambda>b. cuid_base36_pad (ucast (counter + 1)) b 4 (CHR ''0'')) r1 = Inr (r2, 4)"
    by (simp only: s2 t1 r2_def append_Cons append_assoc)
  have l2: "length r2 = length result" using lt2 l1 n24 lens by (simp add: r2_def)
  have t2: "take 11 r2 = CHR ''c'' # ?T @ ?C" using lens by (simp add: r2_def)
  \<comment> \<open>fingerprint\<close>
  have "length (encode h) < length (drop 11 r2)"
    using hostname_number_len[OF hv] n24 l2 unfolding h_def by simp
  moreover have "2 + length (encode (unat pid)) < length (drop 11 r2)" using pid l2 by simp
  moreover have "4 < length (drop 11 r2)" using n24 l2 by simp
  ultimately obtain t3 where
    f3: "cuid_get_fingerprint (0, hv) pid (drop 11 r2) = Inr (?F @ NUL # t3, 4)"
    and lt3: "length t3 = length (drop 11 r2) - 5"
    using cuid_get_fingerprint_fits[of hv "drop 11 r2" pid] unfolding h_def by auto
  have "11 \<le> length r2" using n24 l2 by simp
  from at_offset_Inr[of 11 r2 "cuid_get_fingerprint (0, hv) pid", OF this f3]
  have s3: "at_offset 11 (cuid_get_fingerprint (0, hv) pid) r2 = Inr (take 11 r2 @ ?F @ NUL # t3, 4)" .
  define r3 where "r3 = CHR ''c'' # ?T @ ?C @ ?F @ NUL # t3"
  have s3: "at_offset 11 (cuid_get_fingerprint (0, hv) pid) r2 = Inr (r3, 4)"
    by (simp only: s3 t2 r3_def append_Cons append_assoc)
  have l3: "length r3 = length result" using lt3 l2 n24 lens by (simp add: r3_def)
  have t3: "take 15 r3 = CHR ''c'' # ?T @ ?C @ ?F" using lens by (simp add: r3_def)
  \<comment> \<open>first random block\<close>
  have "15 + length (encode (unat (ucast (rand32 k) :: 64 word))) < length r3"
    using length_encode_32[of "rand32 k"] n24 l3 by simp
  moreover have "15 \<le> length r3" "15 + unat (4 :: 8 word) < length r3" using n24 l3 by simp_all
  ultimately obtain t4 where
    s4: "at_offset 15 (\<lambda>b. cuid_base36_pad (ucast (rand32 k)) b 4 (CHR ''0'')) r3
           = Inr (take 15 r3 @ ?R1 @ NUL # t4, 4)"
    and lt4: "length t4 = length r3 - 15 - 5"
    using at_offset_pad_fits[OF _ four, of 15 r3 "ucast (rand32 k)" "CHR ''0''"]
    by (auto simp: unat_ucast_32_64)
  define r4 where "r4 = CHR ''c'' # ?T @ ?C @ ?F @ ?R1 @ NUL # t4"
  have s4: "at_offset 15 (\<lambda>b. cuid_base36_pad (ucast (rand32 k)) b 4 (CHR ''0'')) r3 = Inr (r4, 4)"
    by (simp only: s4 t3 r4_def append_Cons append_assoc)
  have "cuid timestamp (0, hv) pid rand32 (counter, k) result
          = (case at_offset 19 (\<lambda>b. cuid_base36_pad (ucast (rand32 (Suc k))) b 4 (CHR ''0'')) r4 of
               Inl e \<Rightarrow> Inl e
             | Inr (r5, n5) \<Rightarrow>
                 (case buf_write r5 (CUID_SIZE - 1) NUL of
                    Inl e \<Rightarrow> Inl e
                  | Inr r6 \<Rightarrow> Inr (r6, 19 + n5, counter + 1, Suc (Suc k))))"
    using s1 by (simp add: cuid_def s0 s2 s3 s4 split: sum.splits prod.splits)
  moreover have "length t4 = length result - 20" using lt4 l3 by simp
  ultimately show ?thesis unfolding r4_def by blast
qed

lemma cuid_fits:
  fixes hv :: "32 word list"
  defines "h \<equiv> unat (fold (\<lambda>i hostname_number. hostname_number + ucast (hv ! i))
                        [0..<CUID_HOSTNAME_LENGTH div 4] (0 :: 64 word))"
  assumes len: "CUID_SIZE \<le> length result" and hv: "length hv = 64"
    and pid: "13 + length (encode (unat pid)) < length result"
    and r2: "19 + length (encode (unat (rand32 (Suc k)))) < length result"
  shows "\<exists>tail. cuid timestamp (0, hv) pid rand32 (counter, k) result
                  = Inr (cuid_layout timestamp (counter + 1)
                           (encode_padded h 2 (CHR ''0'') @ encode_padded (unat pid) 2 (CHR ''0''))
                           (rand32 k) (rand32 (Suc k)) @ NUL # tail,
                         23, counter + 1, Suc (Suc k)) \<and>
               length tail = length result - 24"
proof -
  have n24: "24 \<le> length result" using len by (simp add: CUID_SIZE_def)
  have four: "unat (4 :: 8 word) < 16" by simp
  let ?T = "encode_padded (unat timestamp) 6 (CHR ''0'')"
  let ?C = "encode_padded (unat (counter + 1)) 4 (CHR ''0'')"
  let ?F = "encode_padded h 2 (CHR ''0'') @ encode_padded (unat pid) 2 (CHR ''0'')"
  let ?R1 = "encode_padded (unat (rand32 k)) 4 (CHR ''0'')"
  let ?R2 = "encode_padded (unat (rand32 (Suc k))) 4 (CHR ''0'')"
  have lens: "length ?T = 6" "length ?C = 4" "length ?F = 4" "length ?R1 = 4" "length ?R2 = 4"
    by (simp_all add: length_encode_padded)
  from cuid_before_rand2[OF len hv pid, of timestamp rand32 counter k] obtain t4 where
    lt4: "length t4 = length result - 20"
    and c: "cuid timestamp (0, hv) pid rand32 (counter, k) result
             = (case at_offset 19 (\<lambda>b. cuid_base36_pad (ucast (rand32 (Suc k))) b 4 (CHR ''0''))
                       (CHR ''c'' # ?T @ ?C @ ?F @ ?R1 @ NUL # t4) of
                  Inl e \<Rightarrow> Inl e
                | Inr (r5, n5) \<Rightarrow>
                    (case buf_write r5 (CUID_SIZE - 1) NUL of
                       Inl e \<Rightarrow> Inl e
                     | Inr r6 \<Rightarrow> Inr (r6, 19 + n5, counter + 1, Suc (Suc k))))"
    unfolding h_def by blast
  define r4 where "r4 = CHR ''c'' # ?T @ ?C @ ?F @ ?R1 @ NUL # t4"
  have l4: "length r4 = length result" using lt4 n24 lens by (simp add: r4_def)
  have t4: "take 19 r4 = CHR ''c'' # ?T @ ?C @ ?F @ ?R1" using lens by (simp add: r4_def)
  have "19 + length (encode (unat (ucast (rand32 (Suc k)) :: 64 word))) < length r4"
    using r2 l4 by (simp add: unat_ucast_32_64)
  moreover have "19 \<le> length r4" "19 + unat (4 :: 8 word) < length r4" using n24 l4 by simp_all
  ultimately obtain t5 where
    s5: "at_offset 19 (\<lambda>b. cuid_base36_pad (ucast (rand32 (Suc k))) b 4 (CHR ''0'')) r4
           = Inr (take 19 r4 @ ?R2 @ NUL # t5, 4)"
    and lt5: "length t5 = length r4 - 19 - 5"
    using at_offset_pad_fits[OF _ four, of 19 r4 "ucast (rand32 (Suc k))" "CHR ''0''"]
    by (auto simp: unat_ucast_32_64)
  define r5 where "r5 = CHR ''c'' # ?T @ ?C @ ?F @ ?R1 @ ?R2 @ NUL # t5"
  have s5: "at_offset 19 (\<lambda>b. cuid_base36_pad (ucast (rand32 (Suc k))) b 4 (CHR ''0'')) r4 = Inr (r5, 4)"
    by (simp only: s5 t4 r5_def append_Cons append_assoc)
  have l5: "length r5 = length result" using lt5 l4 n24 lens by (simp add: r5_def)
  have "r5[23 := NUL] = r5"
    by (simp add: r5_def list_update_append nth_append length_encode_padded)
  then have s6: "buf_write r5 (CUID_SIZE - 1) NUL = Inr r5"
    using l5 n24 by (simp add: buf_write_def CUID_SIZE_def)
  have "cuid timestamp (0, hv) pid rand32 (counter, k) result
             = (case at_offset 19 (\<lambda>b. cuid_base36_pad (ucast (rand32 (Suc k))) b 4 (CHR ''0'')) r4 of
                  Inl e \<Rightarrow> Inl e
                | Inr (r5, n5) \<Rightarrow>
                    (case buf_write r5 (CUID_SIZE - 1) NUL of
                       Inl e \<Rightarrow> Inl e
                     | Inr r6 \<Rightarrow> Inr (r6, 19 + n5, counter + 1, Suc (Suc k))))"
    unfolding r4_def by (rule c)
  then have "cuid timestamp (0, hv) pid rand32 (counter, k) result = Inr (r5, 23, counter + 1, Suc (Suc k))"
    using s6 by (simp add: s5)
  moreover have "r5 = cuid_layout timestamp (counter + 1) ?F (rand32 k) (rand32 (Suc k)) @ NUL # t5"
    using lens by (simp add: r5_def cuid_layout_def)
  moreover have "length t5 = length result - 24" using lt5 l4 by simp
  ultimately show ?thesis by auto
qed

lemma cuid_overflow:
  fixes hv :: "32 word list"
  assumes len: "length result = CUID_SIZE" and hv: "length hv = 64"
    and pid: "length (encode (unat pid)) \<le> 10"
    and r2: "1679616 \<le> unat (rand32 (Suc k))"
  shows "cuid timestamp (0, hv) pid rand32 (counter, k) result = Inl Out_Of_Bounds"
proof -
  have n24: "length result = 24" using len by (simp add: CUID_SIZE_def)
  have four: "unat (4 :: 8 word) < 16" by simp
  let ?h = "unat (fold (\<lambda>i hostname_number. hostname_number + ucast (hv ! i))
                        [0..<CUID_HOSTNAME_LENGTH div 4] (0 :: 64 word))"
  let ?T = "encode_padded (unat timestamp) 6 (CHR ''0'')"
  let ?C = "encode_padded (unat (counter + 1)) 4 (CHR ''0'')"
  let ?F = "encode_padded ?h 2 (CHR ''0'') @ encode_padded (unat pid) 2 (CHR ''0'')"
  let ?R1 = "encode_padded (unat (rand32 k)) 4 (CHR ''0'')"
  have lens: "length ?T = 6" "length ?C = 4" "length ?F = 4" "length ?R1 = 4"
    by (simp_all add: length_encode_padded)
  have "CUID_SIZE \<le> length result" "13 + length (encode (unat pid)) < length result"
    using len pid n24 by simp_all
  from cuid_before_rand2[OF this(1) hv this(2), of timestamp rand32 counter k] obtain t4 where
    lt4: "length t4 = length result - 20"
    and c: "cuid timestamp (0, hv) pid rand32 (counter, k) result
             = (case at_offset 19 (\<lambda>b. cuid_base36_pad (ucast (rand32 (Suc k))) b 4 (CHR ''0''))
                       (CHR ''c'' # ?T @ ?C @ ?F @ ?R1 @ NUL # t4) of
                  Inl e \<Rightarrow> Inl e
                | Inr (r5, n5) \<Rightarrow>
                    (case buf_write r5 (CUID_SIZE - 1) NUL of
                       Inl e \<Rightarrow> Inl e
                     | Inr r6 \<Rightarrow> Inr (r6, 19 + n5, counter + 1, Suc (Suc k))))"
    by blast
  define r4 where "r4 = CHR ''c'' # ?T @ ?C @ ?F @ ?R1 @ NUL # t4"
  have l4: "length r4 = 24" using lt4 n24 lens by (simp add: r4_def)
  have "(36::nat) ^ 4 \<le> unat (rand32 (Suc k))" using r2 by simp
  from length_encode_gt[OF this]
  have "length r4 \<le> 19 + length (encode (unat (ucast (rand32 (Suc k)) :: 64 word)))"
    using l4 by (simp add: unat_ucast_32_64)
  moreover have "19 \<le> length r4" using l4 by simp
  ultimately have "at_offset 19 (\<lambda>b. cuid_base36_pad (ucast (rand32 (Suc k))) b 4 (CHR ''0'')) r4
                     = Inl Out_Of_Bounds"
    using at_offset_pad_overflow[OF _ four, of 19 r4 "ucast (rand32 (Suc k))" "CHR ''0''"] by blast
  moreover have "cuid timestamp (0, hv) pid rand32 (counter, k) result
             = (case at_offset 19 (\<lambda>b. cuid_base36_pad (ucast (rand32 (Suc k))) b 4 (CHR ''0'')) r4 of
                  Inl e \<Rightarrow> Inl e
                | Inr (r5, n5) \<Rightarrow>
                    (case buf_write r5 (CUID_SIZE - 1) NUL of
                       Inl e \<Rightarrow> Inl e
                     | Inr r6 \<Rightarrow> Inr (r6, 19 + n5, counter + 1, Suc (Suc k))))"
    unfolding r4_def by (rule c)
  ultimately show ?thesis by simp
qed

lemma cuid_modes_agree:
  fixes hv :: "32 word list"
  defines "h \<equiv> unat (fold (\<lambda>i hostname_number. hostname_number + ucast (hv ! i))
                        [0..<CUID_HOSTNAME_LENGTH div 4] (0 :: 64 word))"
  assumes "CUID_SIZE \<le> length result" and "length hv = 64"
    and "13 + length (encode (unat pid)) < length result"
    and "19 + length (encode (unat (rand32 (Suc k)))) < length result"
    and "cuid_sized cid"
    and "take 6 (cuid_timestamp cid) = encode_padded (unat timestamp) 6 (CHR ''0'')"
    and "cuid_read_counter (cuid_counter cid) = counter + 1"
    and "take 4 (cuid_fingerprint cid)
           = encode_padded h 2 (CHR ''0'') @ encode_padded (unat pid) 2 (CHR ''0'')"
    and "mwc_read_random (cuid_rnd1 cid) = rand32 k"
    and "mwc_read_random (cuid_rnd2 cid) = rand32 (Suc k)"
  shows "\<exists>out st cid'. cuid timestamp (0, hv) pid rand32 (counter, k) result = Inr (out, 23, st) \<and>
           cuid_gen_value_string cid = Inr cid' \<and>
           take 23 out = take 23 (cuid_value cid') \<and> out ! 23 = NUL"
proof -
  let ?F = "encode_padded h 2 (CHR ''0'') @ encode_padded (unat pid) 2 (CHR ''0'')"
  let ?lay = "cuid_layout timestamp (counter + 1) ?F (rand32 k) (rand32 (Suc k))"
  from cuid_fits[of result hv pid rand32 k timestamp counter, OF assms(2,3,4,5)] obtain tail where
    q: "cuid timestamp (0, hv) pid rand32 (counter, k) result
          = Inr (?lay @ NUL # tail, 23, counter + 1, Suc (Suc k))"
    unfolding h_def by blast
  from cuid_gen_value_string_sized[OF assms(6)] obtain cid' where
    g: "cuid_gen_value_string cid = Inr cid'"
    "cuid_value cid'
       = CHR ''c'' # take 6 (cuid_timestamp cid) @
         encode_padded (unat (cuid_read_counter (cuid_counter cid))) 4 (CHR ''0'') @
         take 4 (cuid_fingerprint cid) @
         encode_padded (unat (mwc_read_random (cuid_rnd1 cid))) 4 (CHR ''0'') @
         encode_padded (unat (mwc_read_random (cuid_rnd2 cid))) 4 (CHR ''0'') @
         drop 23 (cuid_value cid)"
    by blast
  have ll: "length ?lay = 23" by (simp add: length_cuid_layout length_encode_padded)
  have "cuid_value cid' = ?lay @ drop 23 (cuid_value cid)"
    by (simp add: g(2) assms(7,8,9,10,11) cuid_layout_def length_encode_padded)
  then have "take 23 (cuid_value cid') = ?lay" using ll by simp
  moreover have "take 23 (?lay @ NUL # tail) = ?lay" using ll by simp
  moreover have "(?lay @ NUL # tail) ! 23 = NUL" using ll by (simp add: nth_append)
  ultimately show ?thesis using q g(1) by simp
qed

lemma replicate_3_0: "replicate 3 (CHR ''0'') = ''000''"
  by (simp add: numeral_3_eq_3)

lemma replicate_5_0: "replicate 5 (CHR ''0'') = ''00000''"
  by (simp add: eval_nat_numeral)

text \<open>
  Claim C10 (every call of \<open>cuid\<close> returns 23 and leaves a terminated string of 23 characters
  in the caller's array) fails on the code. The call is the first one of a process (static
  counter 0) with a result array of \<open>CUID_SIZE\<close> characters, timestamp 1, host name \<open>a\<close> (first word 97, the
  rest 0), process id 1 and the two draws 0 and 1679616. \<open>cuid_base36\<close> writes the five digits
  of 1679616 at \<open>result[19..23]\<close> and the terminator at \<open>result[24]\<close>, outside the array. The
  same call on an array of 27 characters returns 23 with the terminator at index 23.
\<close>

theorem cuid_writes_past_result:
  "cuid 1 (0, 97 # replicate 63 0) 1 (\<lambda>i. if i = 0 then 0 else 1679616) (0, 0) (replicate 24 NUL)
     = Inl Out_Of_Bounds \<and>
   (\<exists>tail. cuid 1 (0, 97 # replicate 63 0) 1 (\<lambda>i. if i = 0 then 0 else 1679616) (0, 0)
             (replicate 27 NUL)
            = Inr (''c0000010001'' @ ''2p01'' @ ''0000'' @ ''0000'' @ NUL # tail, 23, 1, 2))"
proof
  let ?hv = "97 # replicate 63 (0 :: 32 word)"
  let ?rand = "\<lambda>i :: nat. if i = 0 then 0 else (1679616 :: 32 word)"
  have hv: "length ?hv = 64" by simp
  have e1: "encode (Suc 0) = ''1''" "encode 0 = ''0''" "encode 97 = ''2p''"
    "encode 1679616 = ''10000''"
    by (simp_all add: encode.simps cuid_radix36_table_def)
  have pid: "length (encode (unat (1 :: 64 word))) \<le> 10" by (simp add: e1)
  have n: "length (replicate 24 NUL) = CUID_SIZE" by (simp add: CUID_SIZE_def)
  show "cuid 1 (0, ?hv) 1 ?rand (0, 0) (replicate 24 NUL) = Inl Out_Of_Bounds"
    using cuid_overflow[of "replicate 24 NUL" ?hv 1 ?rand 0 1 0, OF n hv pid] by simp
  have h: "unat (fold (\<lambda>i hostname_number. hostname_number + ucast (?hv ! i))
                   [0..<CUID_HOSTNAME_LENGTH div 4] (0 :: 64 word)) = 97"
    by (simp only: hostname_number_eq[OF hv]) simp
  have a: "CUID_SIZE \<le> length (replicate 27 NUL)" by (simp add: CUID_SIZE_def)
  have b: "13 + length (encode (unat (1 :: 64 word))) < length (replicate 27 NUL)"
    by (simp add: e1)
  have c: "19 + length (encode (unat (?rand (Suc 0)))) < length (replicate 27 NUL)"
    by (simp add: e1)
  from cuid_fits[of "replicate 27 NUL" ?hv 1 ?rand 0 1 0, OF a hv b c] obtain tail where
    t: "cuid 1 (0, ?hv) 1 ?rand (0, 0) (replicate 27 NUL)
          = Inr (cuid_layout 1 (0 + 1) (encode_padded 97 2 (CHR ''0'') @
                   encode_padded (unat (1 :: 64 word)) 2 (CHR ''0'')) (?rand 0) (?rand (Suc 0)) @
                 NUL # tail, 23, 0 + 1, Suc (Suc 0))"
    and l: "length tail = length (replicate 27 NUL) - 24"
    unfolding h by blast
  have p: "encode_padded (Suc 0) 6 (CHR ''0'') = ''000001''"
    "encode_padded (Suc 0) 4 (CHR ''0'') = ''0001''"
    "encode_padded 97 2 (CHR ''0'') = ''2p''" "encode_padded (Suc 0) 2 (CHR ''0'') = ''01''"
    "encode_padded 0 4 (CHR ''0'') = ''0000''" "encode_padded 1679616 4 (CHR ''0'') = ''0000''"
    by (simp_all add: encode_padded_def e1 replicate_3_0 replicate_5_0)
  have lay: "cuid_layout 1 (0 + 1) (encode_padded 97 2 (CHR ''0'') @
                   encode_padded (unat (1 :: 64 word)) 2 (CHR ''0'')) (?rand 0) (?rand (Suc 0))
               = ''c0000010001'' @ ''2p01'' @ ''0000'' @ ''0000''"
    by (simp add: cuid_layout_def p)
  show "\<exists>tail. cuid 1 (0, ?hv) 1 ?rand (0, 0) (replicate 27 NUL)
            = Inr (''c0000010001'' @ ''2p01'' @ ''0000'' @ ''0000'' @ NUL # tail, 23, 1, 2)"
    using t unfolding lay by simp
qed

text \<open>
  Claim C8 (\<open>cuid_get_fingerprint\<close> writes exactly four characters, two for the sum of the
  host name words and two for the process id, and returns 4) fails on the code. The result
  array has \<open>CUID_FINGERPRINT_SIZE\<close> characters, the host
  name is \<open>localhost\<close> (the words 0x61636f6c, 0x736f686c, 0x74 on a little-endian machine, the
  rest 0) and the process id is 1. The words sum to 3570587724, whose seven digits
  \<open>cuid_base36\<close> writes from \<open>result[0]\<close> on, past the end of the array. On an array of 16
  characters the same call returns 4 and leaves \<open>4c01\<close> and the terminator.
\<close>

theorem cuid_get_fingerprint_writes_past_result:
  "cuid_get_fingerprint (0, 0x61636f6c # 0x736f686c # 0x74 # replicate 61 0) 1
     (replicate CUID_FINGERPRINT_SIZE NUL) = Inl Out_Of_Bounds \<and>
   (\<exists>tail. cuid_get_fingerprint (0, 0x61636f6c # 0x736f686c # 0x74 # replicate 61 0) 1
              (replicate 16 NUL) = Inr (''4c01'' @ NUL # tail, 4))"
proof
  let ?hv = "0x61636f6c # 0x736f686c # 0x74 # replicate 61 (0 :: 32 word)"
  have hv: "length ?hv = 64" by simp
  have h: "unat (fold (\<lambda>i hostname_number. hostname_number + ucast (?hv ! i))
                   [0..<CUID_HOSTNAME_LENGTH div 4] (0 :: 64 word)) = 3570587724"
    by (simp only: hostname_number_eq[OF hv]) simp
  have e: "encode 3570587724 = ''1n1u34c''" "encode (Suc 0) = ''1''"
    by (simp_all add: encode.simps cuid_radix36_table_def)
  have "length (replicate CUID_FINGERPRINT_SIZE NUL)
          \<le> length (encode (unat (fold (\<lambda>i hostname_number. hostname_number + ucast (?hv ! i))
                                     [0..<CUID_HOSTNAME_LENGTH div 4] (0 :: 64 word))))"
    unfolding h by (simp add: e CUID_FINGERPRINT_SIZE_def)
  then show "cuid_get_fingerprint (0, ?hv) 1 (replicate CUID_FINGERPRINT_SIZE NUL) = Inl Out_Of_Bounds"
    by (rule cuid_get_fingerprint_overflow)
  have a: "length (encode (unat (fold (\<lambda>i hostname_number. hostname_number + ucast (?hv ! i))
                                   [0..<CUID_HOSTNAME_LENGTH div 4] (0 :: 64 word))))
             < length (replicate 16 NUL)"
    unfolding h by (simp add: e)
  have b: "2 + length (encode (unat (1 :: 64 word))) < length (replicate 16 NUL)"
    by (simp add: e)
  have c: "4 < length (replicate 16 NUL)" by simp
  have p: "encode_padded 3570587724 2 (CHR ''0'') = ''4c''"
    "encode_padded (Suc 0) 2 (CHR ''0'') = ''01''"
    by (simp_all add: encode_padded_def e)
  from cuid_get_fingerprint_fits[of ?hv "replicate 16 NUL" 1, OF a b c]
  show "\<exists>tail. cuid_get_fingerprint (0, ?hv) 1 (replicate 16 NUL) = Inr (''4c01'' @ NUL # tail, 4)"
    unfolding h by (auto simp: p)
qed


section \<open>The two modes on the same inputs\<close>

lemma cuid_base36_pad_short:
  assumes "unat w < 16" and "length (encode (unat n)) < length buf" and "length buf \<le> unat w"
  shows "cuid_base36_pad n buf w pc = Inl Out_Of_Bounds"
proof -
  let ?e = "encode (unat n)"
  let ?b0 = "?e @ NUL # drop (Suc (length ?e)) buf"
  have b36: "cuid_base36 n buf = Inr (?b0, length ?e)" by (rule cuid_base36_ok[OF assms(2)])
  have lb0: "length ?b0 = length buf" using assms(2) by simp
  have lt: "length ?e < unat w" using assms(2,3) by simp
  have pos: "0 < length ?e" using encode_nonempty[of "unat n"] by simp
  have rd: "buf_read ?b0 (length ?e) = Inr NUL" by (simp add: buf_read_def)
  have wr: "buf_write ?b0 (unat w) c = Inl Out_Of_Bounds" for c
    using assms(3) lb0 by (simp only: buf_write_def) simp
  have "for_loop 0 (Suc (unat w))
          (\<lambda>i b. if i > length ?e then buf_write b (unat w - i) pc
                  else (case buf_read b (length ?e - i) of
                          Inl e \<Rightarrow> Inl e
                        | Inr c \<Rightarrow> buf_write b (unat w - i) c)) ?b0 = Inl Out_Of_Bounds"
    using pos rd wr by (subst for_loop.simps) simp
  then show ?thesis
    using assms(1) b36 lt by (simp add: cuid_base36_pad_def CUID_BASE36_RESULT_SIZE_def)
qed

lemma cuid_base36_pad_Inr:
  assumes "cuid_base36_pad n buf w pc = Inr (b, l)" and "unat w < 16"
  shows "length (encode (unat n)) < length buf" and "unat w < length buf"
    and "l = unat w" and "length b = length buf"
    and "take (unat w) b = encode_padded (unat n) (unat w) pc" and "b ! unat w = NUL"
proof -
  show L: "length (encode (unat n)) < length buf"
  proof (rule ccontr)
    assume "\<not> length (encode (unat n)) < length buf"
    then have "length buf \<le> length (encode (unat n))" by simp
    from cuid_base36_pad_overflow[OF assms(2) this, of pc] assms(1) show False by simp
  qed
  show W: "unat w < length buf"
  proof (rule ccontr)
    assume "\<not> unat w < length buf"
    then have "length buf \<le> unat w" by simp
    from cuid_base36_pad_short[OF assms(2) L this, of pc] assms(1) show False by simp
  qed
  from cuid_base36_pad_fits[OF assms(2) L W, of pc] assms(1) obtain tail where
    b: "b = encode_padded (unat n) (unat w) pc @ NUL # tail" and l: "l = unat w"
    and t: "length tail = length buf - Suc (unat w)"
    by auto
  show "l = unat w" by (rule l)
  show "length b = length buf" using t W by (simp add: b length_encode_padded)
  show "take (unat w) b = encode_padded (unat n) (unat w) pc" by (simp add: b length_encode_padded)
  show "b ! unat w = NUL" by (simp add: b nth_append length_encode_padded)
qed

lemma at_offset_Inr_iff:
  assumes "at_offset k f buf = Inr (b, x)"
  shows "k \<le> length buf" and "\<exists>sub. f (drop k buf) = Inr (sub, x) \<and> b = take k buf @ sub"
  using assms by (auto simp: at_offset_def split: if_splits sum.splits prod.splits)

lemma at_offset_pad_Inr:
  assumes "at_offset k (\<lambda>b. cuid_base36_pad n b w pc) buf = Inr (b, l)" and "unat w < 16"
  shows "k + length (encode (unat n)) < length buf" and "k + unat w < length buf"
    and "l = unat w" and "length b = length buf"
proof -
  from at_offset_Inr_iff[OF assms(1)] obtain sub where
    k: "k \<le> length buf" and s: "cuid_base36_pad n (drop k buf) w pc = Inr (sub, l)"
    and b: "b = take k buf @ sub" by blast
  note p = cuid_base36_pad_Inr[OF s assms(2)]
  show "k + length (encode (unat n)) < length buf" using p(1) by simp
  show "k + unat w < length buf" using p(2) by simp
  show "l = unat w" by (rule p(3))
  show "length b = length buf" using p(4) k by (simp add: b)
qed

lemma cuid_get_fingerprint_Inr:
  fixes hv :: "32 word list"
  assumes "cuid_get_fingerprint (0, hv) pid buf = Inr (b, l)"
  shows "2 + length (encode (unat pid)) < length buf" and "l = 4" and "length b = length buf"
    and "take 4 b = encode_padded (unat (fold (\<lambda>i hostname_number. hostname_number + ucast (hv ! i))
                                          [0..<CUID_HOSTNAME_LENGTH div 4] (0 :: 64 word))) 2 (CHR ''0'')
                    @ encode_padded (unat pid) 2 (CHR ''0'')"
proof -
  let ?h = "fold (\<lambda>i hostname_number. hostname_number + ucast (hv ! i))
                 [0..<CUID_HOSTNAME_LENGTH div 4] (0 :: 64 word)"
  have two: "unat (2 :: 8 word) < 16" and two': "unat (2 :: 8 word) = 2" by simp_all
  from assms obtain b1 l1 l2 where
    s1: "cuid_base36_pad ?h buf 2 (CHR ''0'') = Inr (b1, l1)"
    and s2: "at_offset 2 (\<lambda>b. cuid_base36_pad pid b 2 (CHR ''0'')) b1 = Inr (b, l2)"
    and l: "l = l1 + l2"
    by (auto simp: cuid_get_fingerprint_def split: sum.splits prod.splits)
  note p1 = cuid_base36_pad_Inr[OF s1 two]
  note p2 = at_offset_pad_Inr[OF s2 two]
  show "2 + length (encode (unat pid)) < length buf" using p2(1) p1(4) by simp
  show "l = 4" using l p1(3) p2(3) by simp
  show lb: "length b = length buf" using p2(4) p1(4) by simp
  have "2 + length (encode (unat pid)) < length buf" using p2(1) p1(4) by simp
  moreover have "4 < length buf" using p2(2) p1(4) by simp
  ultimately obtain tail where
    "cuid_get_fingerprint (0, hv) pid buf
       = Inr (encode_padded (unat ?h) 2 (CHR ''0'') @ encode_padded (unat pid) 2 (CHR ''0'') @
              NUL # tail, 4)"
    using cuid_get_fingerprint_fits[of hv buf pid] p1(1) by blast
  with assms have "b = encode_padded (unat ?h) 2 (CHR ''0'') @ encode_padded (unat pid) 2 (CHR ''0'') @
              NUL # tail" by simp
  then show "take 4 b = encode_padded (unat ?h) 2 (CHR ''0'') @ encode_padded (unat pid) 2 (CHR ''0'')"
    by (simp add: length_encode_padded)
qed

lemma cuid_Inr_fits:
  fixes hv :: "32 word list"
  assumes "cuid timestamp (0, hv) pid rand32 (counter, k) result = Inr r"
  shows "CUID_SIZE \<le> length result" and "13 + length (encode (unat pid)) < length result"
    and "19 + length (encode (unat (rand32 (Suc k)))) < length result"
proof -
  have six: "unat (6 :: 8 word) < 16" and four: "unat (4 :: 8 word) < 16" by simp_all
  from assms obtain r0 r1 n1 r2 n2 r3 n3 r4 n4 r5 n5 r6 where
    s0: "buf_write result 0 (CHR ''c'') = Inr r0"
    and s1: "at_offset 1 (\<lambda>b. cuid_base36_pad timestamp b 6 (CHR ''0'')) r0 = Inr (r1, n1)"
    and s2: "at_offset (1 + n1) (\<lambda>b. cuid_base36_pad (ucast (counter + 1)) b 4 (CHR ''0'')) r1
               = Inr (r2, n2)"
    and s3: "at_offset (1 + n1 + n2) (cuid_get_fingerprint (0, hv) pid) r2 = Inr (r3, n3)"
    and s4: "at_offset (1 + n1 + n2 + n3) (\<lambda>b. cuid_base36_pad (ucast (rand32 k)) b 4 (CHR ''0'')) r3
               = Inr (r4, n4)"
    and s5: "at_offset (1 + n1 + n2 + n3 + n4)
               (\<lambda>b. cuid_base36_pad (ucast (rand32 (Suc k))) b 4 (CHR ''0'')) r4 = Inr (r5, n5)"
    and s6: "buf_write r5 (CUID_SIZE - 1) NUL = Inr r6"
    unfolding cuid_def by (simp split: sum.splits prod.splits)
  have l0: "length r0 = length result" using s0 by (auto simp: buf_write_def split: if_splits)
  note p1 = at_offset_pad_Inr[OF s1 six]
  have n1: "n1 = 6" using p1(3) by simp
  note p2 = at_offset_pad_Inr[OF s2 four]
  have n2: "n2 = 4" using p2(3) by simp
  from at_offset_Inr_iff[OF s3] obtain sub where
    k3: "1 + n1 + n2 \<le> length r2"
    and f3: "cuid_get_fingerprint (0, hv) pid (drop (1 + n1 + n2) r2) = Inr (sub, n3)"
    and r3: "r3 = take (1 + n1 + n2) r2 @ sub" by blast
  note p3 = cuid_get_fingerprint_Inr[OF f3]
  have n3: "n3 = 4" by (rule p3(2))
  have l3: "length r3 = length r2" using p3(3) k3 by (simp add: r3)
  note p4 = at_offset_pad_Inr[OF s4 four]
  have n4: "n4 = 4" using p4(3) by simp
  note p5 = at_offset_pad_Inr[OF s5 four]
  have l5: "length r5 = length result" using p5(4) p4(4) l3 p2(4) p1(4) l0 by simp
  show "CUID_SIZE \<le> length result"
    using s6 l5 by (auto simp: buf_write_def split: if_splits)
  show "13 + length (encode (unat pid)) < length result"
    using p3(1) k3 n1 n2 p2(4) p1(4) l0 by simp
  show "19 + length (encode (unat (rand32 (Suc k)))) < length result"
    using p5(1) n1 n2 n3 n4 p4(4) l3 p2(4) p1(4) l0 by (simp add: unat_ucast_32_64)
qed

lemma cuid_returns_with_room:
  fixes hv :: "32 word list"
  assumes "length hv = 64" and "CUID_SIZE + 3 \<le> length result"
  shows "\<exists>out st. cuid timestamp (0, hv) pid rand32 (counter, k) result = Inr (out, 23, st)"
proof -
  have a: "CUID_SIZE \<le> length result" using assms(2) by simp
  have b: "13 + length (encode (unat pid)) < length result"
    using length_encode_unat[of pid] assms(2) by (simp add: CUID_SIZE_def)
  have c: "19 + length (encode (unat (rand32 (Suc k)))) < length result"
    using length_encode_32[of "rand32 (Suc k)"] assms(2)
    by (simp add: CUID_SIZE_def unat_ucast_32_64)
  from cuid_fits[of result hv pid rand32 k timestamp counter, OF a assms(1) b c]
  show ?thesis by blast
qed

text \<open>
  Claim C6. A quick-mode call that returns and the pure-mode rendering of a context holding
  the same inputs give the same 23 characters. The inputs are the same when the context's
  timestamp block was stamped by \<open>cuid_base36_pad\<close> from the same timestamp, its counter reads
  the incremented static counter, its fingerprint starts with the four characters the default
  provider writes for the same host name and process id, and its two generators read the two
  draws. Then \<open>cuid_gen_value_string\<close> returns, \<open>cuid\<close> returned 23, the first 23 characters of
  the two arrays are equal and are the rendering rule applied to these inputs, and the
  terminator follows. For every such input the quick-mode call does return when its array has
  three characters more than \<open>CUID_SIZE\<close>.
\<close>

theorem cuid_mode_equivalence:
  fixes hostname_values :: "32 word list"
  assumes "length hostname_values = 64"
    and "cuid timestamp (0, hostname_values) pid rand32 (counter, k) result = Inr (out, n, st)"
    and "cuid_sized cid"
    and "cuid_base36_pad timestamp timestamp_buf 6 (CHR ''0'') = Inr (cuid_timestamp cid, m)"
    and "cuid_read_counter (cuid_counter cid) = counter + 1"
    and "cuid_get_fingerprint (0, hostname_values) pid fingerprint_buf = Inr (fingerprint, m')"
    and "take 4 (cuid_fingerprint cid) = take 4 fingerprint"
    and "mwc_read_random (cuid_rnd1 cid) = rand32 k"
    and "mwc_read_random (cuid_rnd2 cid) = rand32 (Suc k)"
  shows "(\<exists>cid'. cuid_gen_value_string cid = Inr cid' \<and> n = 23 \<and>
            take 23 out = take 23 (cuid_value cid') \<and> out ! 23 = NUL \<and>
            take 23 out = cuid_layout timestamp (counter + 1) fingerprint (rand32 k) (rand32 (Suc k))) \<and>
         (CUID_SIZE + 3 \<le> length result' \<longrightarrow>
            (\<exists>out' st'. cuid timestamp (0, hostname_values) pid rand32 (counter, k) result'
                          = Inr (out', 23, st')))"
proof
  let ?h = "unat (fold (\<lambda>i hostname_number. hostname_number + ucast (hostname_values ! i))
                    [0..<CUID_HOSTNAME_LENGTH div 4] (0 :: 64 word))"
  let ?F = "encode_padded ?h 2 (CHR ''0'') @ encode_padded (unat pid) 2 (CHR ''0'')"
  let ?lay = "cuid_layout timestamp (counter + 1) ?F (rand32 k) (rand32 (Suc k))"
  note fits = cuid_Inr_fits[OF assms(2)]
  from cuid_fits[of result hostname_values pid rand32 k timestamp counter,
      OF fits(1) assms(1) fits(2,3)] assms(2)
  obtain tail where out: "out = ?lay @ NUL # tail" and n: "n = 23" by auto
  have six: "unat (6 :: 8 word) < 16" by simp
  have ts: "take 6 (cuid_timestamp cid) = encode_padded (unat timestamp) 6 (CHR ''0'')"
    using cuid_base36_pad_Inr(5)[OF assms(4) six] by simp
  have fp: "take 4 fingerprint = ?F" by (rule cuid_get_fingerprint_Inr(4)[OF assms(6)])
  have lay: "cuid_layout timestamp (counter + 1) fingerprint (rand32 k) (rand32 (Suc k)) = ?lay"
    by (simp add: cuid_layout_def fp length_encode_padded)
  have ll: "length ?lay = 23" by (simp add: length_cuid_layout length_encode_padded)
  from cuid_gen_value_string_sized[OF assms(3)] obtain cid' where
    g: "cuid_gen_value_string cid = Inr cid'"
    "cuid_value cid'
       = CHR ''c'' # take 6 (cuid_timestamp cid) @
         encode_padded (unat (cuid_read_counter (cuid_counter cid))) 4 (CHR ''0'') @
         take 4 (cuid_fingerprint cid) @
         encode_padded (unat (mwc_read_random (cuid_rnd1 cid))) 4 (CHR ''0'') @
         encode_padded (unat (mwc_read_random (cuid_rnd2 cid))) 4 (CHR ''0'') @
         drop 23 (cuid_value cid)"
    by blast
  have "cuid_value cid' = ?lay @ drop 23 (cuid_value cid)"
    by (simp add: g(2) ts assms(5,7,8,9) fp cuid_layout_def length_encode_padded)
  then have v: "take 23 (cuid_value cid') = ?lay" using ll by simp
  have o: "take 23 out = ?lay" using ll by (simp add: out)
  have z: "out ! 23 = NUL" using ll by (simp add: out nth_append)
  show "\<exists>cid'. cuid_gen_value_string cid = Inr cid' \<and> n = 23 \<and>
            take 23 out = take 23 (cuid_value cid') \<and> out ! 23 = NUL \<and>
            take 23 out = cuid_layout timestamp (counter + 1) fingerprint (rand32 k) (rand32 (Suc k))"
    using g(1) n v o z lay by auto
  show "CUID_SIZE + 3 \<le> length result' \<longrightarrow>
            (\<exists>out' st'. cuid timestamp (0, hostname_values) pid rand32 (counter, k) result'
                          = Inr (out', 23, st'))"
    using cuid_returns_with_room[OF assms(1)] by blast
qed

theorem cuid_mode_equivalence_witness:
  "\<exists>out st cid'.
     length (97 # replicate 63 (0 :: 32 word)) = 64 \<and>
     cuid 2 (0, 97 # replicate 63 0) 2 (\<lambda>i. if i = 0 then 7 else 1679615) (0, 0) (replicate 24 NUL)
       = Inr (out, 23, st) \<and>
     cuid_gen_value_string
       \<lparr>cuid_fingerprint = ''2p02'' @ replicate 12 NUL,
        cuid_counter = \<lparr>counter_value = 1\<rparr>,
        cuid_counter_str = replicate 16 NUL,
        cuid_rnd1 = \<lparr>mwc_q = replicate 4096 7, mwc_carry = 0, mwc_current_cycle = 0,
                     mwc_initial_carry = 0, mwc_initial_q = replicate 4096 7\<rparr>,
        cuid_rnd2 = \<lparr>mwc_q = replicate 4096 1679615, mwc_carry = 0, mwc_current_cycle = 0,
                     mwc_initial_carry = 0, mwc_initial_q = replicate 4096 1679615\<rparr>,
        cuid_rnd1_str = replicate 16 NUL,
        cuid_rnd2_str = replicate 16 NUL,
        cuid_value = replicate 24 NUL,
        cuid_timestamp = ''000002'' @ NUL # replicate 9 NUL\<rparr> = Inr cid' \<and>
     take 23 out = take 23 (cuid_value cid') \<and>
     take 23 out = ''c00000200012p020007zzzz'' \<and> out ! 23 = NUL"
proof -
  let ?hv = "97 # replicate 63 (0 :: 32 word)"
  let ?rand = "\<lambda>i :: nat. if i = 0 then 7 else (1679615 :: 32 word)"
  let ?cid = "\<lparr>cuid_fingerprint = ''2p02'' @ replicate 12 NUL,
        cuid_counter = \<lparr>counter_value = 1\<rparr>,
        cuid_counter_str = replicate 16 NUL,
        cuid_rnd1 = \<lparr>mwc_q = replicate 4096 7, mwc_carry = 0, mwc_current_cycle = 0,
                     mwc_initial_carry = 0, mwc_initial_q = replicate 4096 7\<rparr>,
        cuid_rnd2 = \<lparr>mwc_q = replicate 4096 1679615, mwc_carry = 0, mwc_current_cycle = 0,
                     mwc_initial_carry = 0, mwc_initial_q = replicate 4096 1679615\<rparr>,
        cuid_rnd1_str = replicate 16 NUL,
        cuid_rnd2_str = replicate 16 NUL,
        cuid_value = replicate 24 NUL,
        cuid_timestamp = ''000002'' @ NUL # replicate 9 NUL\<rparr>"
  have hv: "length ?hv = 64" by simp
  have e: "encode 2 = ''2''" "encode (Suc 0) = ''1''" "encode 7 = ''7''" "encode 97 = ''2p''"
    "encode 1679615 = ''zzzz''"
    by (simp_all add: encode.simps cuid_radix36_table_def)
  have p: "encode_padded 2 6 (CHR ''0'') = ''000002''" "encode_padded (Suc 0) 4 (CHR ''0'') = ''0001''"
    "encode_padded 7 4 (CHR ''0'') = ''0007''" "encode_padded 1679615 4 (CHR ''0'') = ''zzzz''"
    "encode_padded 97 2 (CHR ''0'') = ''2p''" "encode_padded 2 2 (CHR ''0'') = ''02''"
    by (simp_all add: encode_padded_def e replicate_3_0 replicate_5_0)
  have h: "unat (fold (\<lambda>i hostname_number. hostname_number + ucast (?hv ! i))
                   [0..<CUID_HOSTNAME_LENGTH div 4] (0 :: 64 word)) = 97"
    by (simp only: hostname_number_eq[OF hv]) simp
  \<comment> \<open>the quick-mode call returns\<close>
  have a: "CUID_SIZE \<le> length (replicate 24 NUL)" by (simp add: CUID_SIZE_def)
  have b: "13 + length (encode (unat (2 :: 64 word))) < length (replicate 24 NUL)" by (simp add: e)
  have c: "19 + length (encode (unat (?rand (Suc 0)))) < length (replicate 24 NUL)" by (simp add: e)
  from cuid_fits[of "replicate 24 NUL" ?hv 2 ?rand 0 2 0, OF a hv b c] obtain out st where
    q: "cuid 2 (0, ?hv) 2 ?rand (0, 0) (replicate 24 NUL) = Inr (out, 23, st)" by blast
  \<comment> \<open>the context holds the same inputs\<close>
  have sized: "cuid_sized ?cid"
    by (simp add: cuid_sized_def CUID_BASE36_RESULT_SIZE_def CUID_SIZE_def MWC_CYCLE_def)
  have six: "unat (6 :: 8 word) < 16" by simp
  have stamp: "cuid_base36_pad 2 (replicate 16 NUL) 6 (CHR ''0'') = Inr (cuid_timestamp ?cid, 6)"
    using cuid_base36_pad_ok[OF six, of 2 "replicate 16 NUL" "CHR ''0''"] by (simp add: e p)
  have cnt: "cuid_read_counter (cuid_counter ?cid) = 0 + 1" by (simp add: cuid_read_counter_def)
  have "length (encode (unat (fold (\<lambda>i hostname_number. hostname_number + ucast (?hv ! i))
                                   [0..<CUID_HOSTNAME_LENGTH div 4] (0 :: 64 word))))
             < length (replicate 16 NUL)"
    unfolding h by (simp add: e)
  moreover have "2 + length (encode (unat (2 :: 64 word))) < length (replicate 16 NUL)"
    by (simp add: e)
  moreover have "4 < length (replicate 16 NUL)" by simp
  ultimately obtain tail where
    f: "cuid_get_fingerprint (0, ?hv) 2 (replicate 16 NUL) = Inr (''2p02'' @ NUL # tail, 4)"
    using cuid_get_fingerprint_fits[of ?hv "replicate 16 NUL" 2] unfolding h by (auto simp: p)
  have feq: "take 4 (cuid_fingerprint ?cid) = take 4 (''2p02'' @ NUL # tail)" by simp
  have r1: "mwc_read_random (cuid_rnd1 ?cid) = ?rand 0" by (simp add: mwc_read_random_def)
  have r2: "mwc_read_random (cuid_rnd2 ?cid) = ?rand (Suc 0)" by (simp add: mwc_read_random_def)
  from cuid_mode_equivalence[OF hv q sized stamp cnt f feq r1 r2, of "replicate 27 NUL"]
  obtain cid' where
    g: "cuid_gen_value_string ?cid = Inr cid'" "take 23 out = take 23 (cuid_value cid')"
    "out ! 23 = NUL"
    "take 23 out = cuid_layout 2 (0 + 1) (''2p02'' @ NUL # tail) (?rand 0) (?rand (Suc 0))"
    by blast
  have "cuid_layout 2 (0 + 1) (''2p02'' @ NUL # tail) (?rand 0) (?rand (Suc 0))
          = ''c00000200012p020007zzzz''"
    by (simp add: cuid_layout_def p)
  with g(4) have "take 23 out = ''c00000200012p020007zzzz''" by simp
  with hv q g(1,2,3) show ?thesis by blast
qed

end
